theory Spec2Isabelle
  imports Complex_Main "HOL-Library.Sublist" "HOL-Library.Multiset"
begin

section \<open>Strings\<close>

text \<open>
  The string methods the source calls, on \<^typ>\<open>string\<close> (a list of characters).
  \<open>s.startsWith(p)\<close>, \<open>s.endsWith(p)\<close> and \<open>s.includes(p)\<close> compare code units one by one;
  \<open>s.replace(p, r)\<close> with a string pattern replaces the first occurrence of \<open>p\<close> only
  (the replacement strings used by the source contain no \<open>$\<close> pattern).
\<close>

fun startsWith :: "string \<Rightarrow> string \<Rightarrow> bool" where
  "startsWith s [] = True"
| "startsWith [] (p # ps) = False"
| "startsWith (c # cs) (p # ps) = (c = p \<and> startsWith cs ps)"



fun replace :: "string \<Rightarrow> string \<Rightarrow> string \<Rightarrow> string" where
  "replace [] p r = (if p = [] then r else [])"
| "replace (c # cs) p r =
     (if startsWith (c # cs) p then r @ drop (length p) (c # cs) else c # replace cs p r)"

section \<open>File upload (App, \<open>handleFileUpload\<close>)\<close>








section \<open>The extraction graph\<close>

text \<open>
  Modelled from the spec: the type \<open>ComponentNode\<close> is declared in the module
  \<open>HookExtractor\<close>, which is not among the sources; the fields are the ones the views read
  (\<open>id\<close>, \<open>name\<close>, \<open>props\<close>, \<open>states\<close>, \<open>effects\<close>, \<open>children\<close>, \<open>falseChildren\<close>) with the
  types of the data model (section 3 of the spec). The objects of one run form an arena
  addressed by id: \<open>componentList\<close> is the list of all component objects, and a reference
  to a component (an element of \<open>children\<close> or \<open>falseChildren\<close>) is that component's id.
\<close>

record PropNode =
  p_id :: string
  p_name :: string
  references :: "string list"

record StateNode =
  s_id :: string
  s_name :: string

record EffectNode =
  e_id :: string
  dependencyIds :: "string list"
  handlingTargetIds :: "string list"

record ComponentNode =
  c_id :: string
  c_name :: string
  props :: "PropNode list"
  states :: "StateNode list"
  effects :: "EffectNode list"
  children :: "string list"
  falseChildren :: "string list"

text \<open>
  Dereferencing: the object an id denotes is the first one of \<open>componentList\<close> that carries
  it (ids are unique in one run). An id that denotes no object has no children; a graph
  built from object references holds no such id.
\<close>

definition getComponent :: "ComponentNode list \<Rightarrow> string \<Rightarrow> ComponentNode option" where
  "getComponent g i = find (\<lambda>c. c_id c = i) g"

definition childrenOf :: "ComponentNode list \<Rightarrow> string \<Rightarrow> string list" where
  "childrenOf g i = (case getComponent g i of None \<Rightarrow> [] | Some c \<Rightarrow> children c)"

text \<open>Writing the \<open>children\<close> array of the object an id denotes (an in-place update).\<close>

fun setChildren :: "ComponentNode list \<Rightarrow> string \<Rightarrow> string list \<Rightarrow> ComponentNode list" where
  "setChildren [] i cs = []"
| "setChildren (c # g) i cs =
     (if c_id c = i then c\<lparr>children := cs\<rparr> # g else c # setChildren g i cs)"

text \<open>The \<open>children\<close> edges of a graph as a relation on ids, and the ids of its components.\<close>

definition childRel :: "ComponentNode list \<Rightarrow> (string \<times> string) set" where
  "childRel g = {(x, y). y \<in> set (childrenOf g x)}"

definition idsOf :: "ComponentNode list \<Rightarrow> string set" where
  "idsOf g = c_id ` set g"

definition nodesOf :: "ComponentNode list \<Rightarrow> string set" where
  "nodesOf g = idsOf g \<union> (\<Union>c \<in> set g. set (children c))"

section \<open>Traversal (\<open>visitDecendent\<close>, \<open>countDecendent\<close>)\<close>

text \<open>
  Modelled from the spec: \<open>HookExtractor.visitDecendent\<close> is not among the sources. The spec
  (4.4, \<open>visitDescendant\<close>): it applies \<open>visitFn\<close> to every component reachable from
  \<open>component\<close> via \<open>children\<close> (\<open>falseChildren\<close> excluded), each exactly once, keeping a
  visited-id set for the call; a component already visited in the call is not re-entered
  or re-emitted. The model is a depth-first walk: \<open>visitLoop\<close> takes the components still
  to enter (a stack, the children of the start first) and the ids visited so far, in the
  order of the calls of \<open>visitFn\<close>. The start is visited only when it is its own
  descendant, as on the cycle of the spec's cycle-safety property; \<open>findRoots\<close> relies on
  that, since it lists the components no traversal visits.
\<close>

function visitLoop :: "ComponentNode list \<Rightarrow> string list \<Rightarrow> string list \<Rightarrow> string list" where
  "visitLoop g [] visited = visited"
| "visitLoop g (x # stack) visited =
     (if x \<in> set visited then visitLoop g stack visited
      else visitLoop g (childrenOf g x @ stack) (visited @ [x]))"
  by pat_completeness auto

termination visitLoop
proof (relation "measures [\<lambda>(g, stack, visited). card ((nodesOf g \<union> set stack) - set visited),
                           \<lambda>(g, stack, visited). length stack]", goal_cases)
  case 1
  show ?case by simp
next
  case (2 g x stack visited)
  have "finite ((nodesOf g \<union> set (x # stack)) - set visited)"
    by (simp add: nodesOf_def idsOf_def)
  moreover have "(nodesOf g \<union> set stack) - set visited
      \<subseteq> (nodesOf g \<union> set (x # stack)) - set visited"
    by auto
  ultimately have "card ((nodesOf g \<union> set stack) - set visited)
      \<le> card ((nodesOf g \<union> set (x # stack)) - set visited)"
    by (rule card_mono)
  then show ?case by auto
next
  case (3 g x stack visited)
  have sub: "set (childrenOf g x) \<subseteq> nodesOf g"
  proof (cases "find (\<lambda>c. c_id c = x) g")
    case None
    then show ?thesis by (simp add: childrenOf_def getComponent_def)
  next
    case (Some c)
    then have "c \<in> set g" by (auto simp: find_Some_iff)
    with Some show ?thesis by (auto simp: childrenOf_def getComponent_def nodesOf_def)
  qed
  have "finite ((nodesOf g \<union> set (x # stack)) - set visited)"
    by (simp add: nodesOf_def idsOf_def)
  moreover have "(nodesOf g \<union> set (childrenOf g x @ stack)) - set (visited @ [x])
      \<subset> (nodesOf g \<union> set (x # stack)) - set visited"
    using 3 sub by auto
  ultimately have "card ((nodesOf g \<union> set (childrenOf g x @ stack)) - set (visited @ [x]))
      < card ((nodesOf g \<union> set (x # stack)) - set visited)"
    by (rule psubset_card_mono)
  then show ?case by simp
qed

text \<open>
  \<open>visitOrder g i\<close> is the sequence of components \<open>visitFn\<close> is called on by
  \<open>visitDescendant(component, visitFn)\<close>, where \<open>i\<close> is the id of \<open>component\<close>; the call
  itself runs \<open>visitFn\<close> along it, threading whatever state \<open>visitFn\<close> mutates.
\<close>

definition visitOrder :: "ComponentNode list \<Rightarrow> string \<Rightarrow> string list" where
  "visitOrder g i = visitLoop g (childrenOf g i) []"

definition visitDescendant ::
  "ComponentNode list \<Rightarrow> string \<Rightarrow> (string \<Rightarrow> 's \<Rightarrow> 's) \<Rightarrow> 's \<Rightarrow> 's" where
  "visitDescendant g i visitFn st = fold visitFn (visitOrder g i) st"

text \<open>
  Modelled from the spec: \<open>HookExtractor.countDecendent\<close> is not among the sources. The spec
  (4.4, \<open>countDescendant\<close>): the number of distinct descendants reachable via \<open>children\<close>,
  computed with the same cycle-safety rule.
\<close>

definition countDescendant :: "ComponentNode list \<Rightarrow> string \<Rightarrow> int" where
  "countDescendant g i = int (length (visitOrder g i))"

section \<open>Root discovery (MainView, \<open>findRoots\<close>)\<close>

text \<open>
  The first \<open>forEach\<close>: a component whose id is already in \<open>visited\<close> is skipped; for any
  other, every component the traversal visits has its id pushed on \<open>visited\<close>.
\<close>

fun findRootsVisit ::
  "ComponentNode list \<Rightarrow> ComponentNode list \<Rightarrow> string list \<Rightarrow> string list" where
  "findRootsVisit extractor [] visited = visited"
| "findRootsVisit extractor (component # components) visited =
     (if c_id component \<in> set visited then findRootsVisit extractor components visited
      else findRootsVisit extractor components
             (visitDescendant extractor (c_id component) (\<lambda>child v. v @ [child]) visited))"

text \<open>The second \<open>forEach\<close>: a component whose id is not in \<open>visited\<close> is pushed on \<open>roots\<close>.\<close>

fun findRootsCollect ::
  "ComponentNode list \<Rightarrow> string list \<Rightarrow> ComponentNode list \<Rightarrow> ComponentNode list" where
  "findRootsCollect [] visited roots = roots"
| "findRootsCollect (component # components) visited roots =
     (if c_id component \<notin> set visited then findRootsCollect components visited (roots @ [component])
      else findRootsCollect components visited roots)"

text \<open>
  \<open>findRoots(components, extractor)\<close>; the extractor is read through its \<open>componentList\<close>
  only, which is what \<open>visitDecendent\<close> dereferences children in.
\<close>

definition findRoots :: "ComponentNode list \<Rightarrow> ComponentNode list \<Rightarrow> ComponentNode list" where
  "findRoots components extractor =
     findRootsCollect components (findRootsVisit extractor components []) []"

section \<open>Flow nodes and edges (MainView)\<close>

text \<open>
  A node of the flow diagram with the fields the functions below read or write: \<open>id\<close>,
  \<open>type\<close>, \<open>parentId\<close> and, of \<open>data\<close>, \<open>label\<close>, \<open>level\<close>, \<open>index\<close>, \<open>hasState\<close>, \<open>hasProps\<close> and
  \<open>component\<close> (a reference to a component object, hence an id). Position, style and
  \<open>zIndex\<close> are presentation only and left out.
\<close>

record Node =
  n_id :: string
  n_type :: string
  parentId :: "string option"
  label :: string
  level :: nat
  n_index :: nat
  hasState :: bool
  hasProps :: bool
  component :: "string option"

datatype MarkerType = Arrow | ArrowClosed

record MarkerEnd =
  markerType :: MarkerType
  markerColor :: "string option"

record Style =
  stroke :: string
  strokeWidth :: "rat option"

text \<open>
  \<open>data\<close> of an edge: \<open>{component}\<close> on an effect edge, \<open>{refRoot, propRoot}\<close> on a prop edge.
\<close>

datatype EdgeData = EffectEdgeData string | PropEdgeData string string

record Edge =
  edge_id :: string
  source :: string
  target :: string
  style :: "Style option"
  animated :: bool
  zIndex :: int
  markerEnd :: MarkerEnd
  edgeData :: "EdgeData option"
  sourceHandle :: "string option"

definition innerEdgeWidth :: rat where
  "innerEdgeWidth = 3 / 2"

subsection \<open>\<open>convertEffectEdges\<close>\<close>

text \<open>The inner \<open>forEach\<close> over \<open>effect.dependencyIds\<close>; \<open>edges\<close> is the array pushed on.\<close>

fun pushDependencyEdges :: "string \<Rightarrow> EffectNode \<Rightarrow> string list \<Rightarrow> Edge list \<Rightarrow> Edge list" where
  "pushDependencyEdges componentId effect [] edges = edges"
| "pushDependencyEdges componentId effect (depId # depIds) edges =
     pushDependencyEdges componentId effect depIds
       (edges @
        [\<lparr>edge_id = e_id effect @ ''-'' @ depId,
          source = depId,
          target = e_id effect,
          style = Some (if startsWith depId ''state''
                        then \<lparr>stroke = ''#FF3B30'', strokeWidth = Some innerEdgeWidth\<rparr>
                        else \<lparr>stroke = ''black'', strokeWidth = Some innerEdgeWidth\<rparr>),
          animated = (if startsWith depId ''state'' then True else False),
          zIndex = 50,
          markerEnd = \<lparr>markerType = ArrowClosed,
                       markerColor = Some (if startsWith depId ''state'' then ''#FF3B30'' else ''black'')\<rparr>,
          edgeData = Some (EffectEdgeData componentId),
          sourceHandle = None\<rparr>])"

text \<open>The inner \<open>forEach\<close> over \<open>effect.handlingTargetIds\<close>.\<close>

fun pushHandlingEdges :: "string \<Rightarrow> EffectNode \<Rightarrow> string list \<Rightarrow> Edge list \<Rightarrow> Edge list" where
  "pushHandlingEdges componentId effect [] edges = edges"
| "pushHandlingEdges componentId effect (targetId # targetIds) edges =
     pushHandlingEdges componentId effect targetIds
       (edges @
        [\<lparr>edge_id = e_id effect @ ''-'' @ targetId,
          source = e_id effect,
          target = targetId,
          style = Some (if startsWith targetId ''prop''
                        then \<lparr>stroke = ''#FF3B30'', strokeWidth = Some innerEdgeWidth\<rparr>
                        else \<lparr>stroke = ''black'', strokeWidth = Some innerEdgeWidth\<rparr>),
          animated = (if startsWith targetId ''prop'' then True else False),
          zIndex = 50,
          markerEnd = \<lparr>markerType = ArrowClosed,
                       markerColor = Some (if startsWith targetId ''prop'' then ''#FF3B30'' else ''black'')\<rparr>,
          edgeData = Some (EffectEdgeData componentId),
          sourceHandle = None\<rparr>])"

text \<open>The outer \<open>forEach\<close> over \<open>component.effects\<close>.\<close>

fun effectsLoop :: "string \<Rightarrow> EffectNode list \<Rightarrow> Edge list \<Rightarrow> Edge list" where
  "effectsLoop componentId [] edges = edges"
| "effectsLoop componentId (effect # rest) edges =
     effectsLoop componentId rest
       (pushHandlingEdges componentId effect (handlingTargetIds effect)
          (pushDependencyEdges componentId effect (dependencyIds effect) edges))"

definition convertEffectEdges :: "ComponentNode \<Rightarrow> Edge list" where
  "convertEffectEdges cnode = effectsLoop (c_id cnode) (effects cnode) []"

subsection \<open>Setter references\<close>

text \<open>
  Modelled from the spec: the code that derives a setter reference from a state id is in
  \<open>HookExtractor\<close>, not among the sources. The spec (section 3, StateEntity): the setter is
  addressed by substituting the id's kind tag with a setter tag while keeping the same
  suffix.
\<close>

definition setterRefOf :: "string \<Rightarrow> string" where
  "setterRefOf stateId = replace stateId ''state'' ''setter''"

text \<open>
  The resolution \<open>convertPropEdges\<close> applies to a setter reference:
  \<open>ref.replace("setter", "state")\<close>.
\<close>

definition setterNodeId :: "string \<Rightarrow> string" where
  "setterNodeId ref = replace ref ''setter'' ''state''"

subsection \<open>\<open>convertPropEdges\<close>\<close>

text \<open>
  The body of the innermost \<open>forEach\<close>, for one reference \<open>ref\<close> of one prop: it returns
  \<open>newPropEdges\<close> as the body leaves it. Each \<open>return\<close> of the source leaves it unchanged.
\<close>

definition propRefBody ::
  "Edge list \<Rightarrow> Node list \<Rightarrow> Node list \<Rightarrow> ComponentNode \<Rightarrow> PropNode \<Rightarrow> string \<Rightarrow> Edge list \<Rightarrow> Edge list" where
  "propRefBody currentPropEdges currentStateNodes currentPropNodes cnode prop ref newPropEdges =
     (if startsWith ref ''setter'' then
        (let nodeId = setterNodeId ref in
         case find (\<lambda>t. n_id t = nodeId) currentStateNodes of
           None \<Rightarrow> newPropEdges
         | Some tgt \<Rightarrow>
             (case find (\<lambda>edge. edge_id edge = ref @ ''-'' @ p_id prop) currentPropEdges of
                Some found \<Rightarrow> newPropEdges
              | None \<Rightarrow>
                  newPropEdges @
                  [\<lparr>edge_id = ref @ ''-'' @ p_id prop,
                    source = nodeId,
                    target = p_id prop,
                    style = Some \<lparr>stroke = ''#A2845E'', strokeWidth = None\<rparr>,
                    animated = True,
                    zIndex = 50,
                    markerEnd = \<lparr>markerType = ArrowClosed, markerColor = Some ''#A2845E''\<rparr>,
                    edgeData = Some (PropEdgeData (n_id tgt) (c_id cnode)),
                    sourceHandle = Some ''setter''\<rparr>]))
      else
        (case (case find (\<lambda>t. n_id t = ref) currentStateNodes of
                 Some t \<Rightarrow> Some t
               | None \<Rightarrow> find (\<lambda>t. n_id t = ref) currentPropNodes) of
           None \<Rightarrow> newPropEdges
         | Some tgt \<Rightarrow>
             (case find (\<lambda>edge. edge_id edge = ref @ ''-'' @ p_id prop) currentPropEdges of
                Some found \<Rightarrow> newPropEdges
              | None \<Rightarrow>
                  newPropEdges @
                  [\<lparr>edge_id = ref @ ''-'' @ p_id prop,
                    source = ref,
                    target = p_id prop,
                    style = Some (if startsWith ref ''prop''
                                  then \<lparr>stroke = ''#FF3B30'', strokeWidth = Some innerEdgeWidth\<rparr>
                                  else \<lparr>stroke = ''#34C759'', strokeWidth = None\<rparr>),
                    animated = True,
                    zIndex = 50,
                    markerEnd = \<lparr>markerType = ArrowClosed,
                                 markerColor = Some (if startsWith ref ''prop'' then ''#FF3B30'' else ''#34C759'')\<rparr>,
                    edgeData = Some (PropEdgeData (n_id tgt) (c_id cnode)),
                    sourceHandle = None\<rparr>])))"

text \<open>\<open>prop.references.forEach\<close>, \<open>component.props.forEach\<close> and \<open>nodes.forEach\<close>.\<close>

fun referencesLoop ::
  "Edge list \<Rightarrow> Node list \<Rightarrow> Node list \<Rightarrow> ComponentNode \<Rightarrow> PropNode \<Rightarrow> string list \<Rightarrow> Edge list \<Rightarrow> Edge list" where
  "referencesLoop cpe csn cpn cnode prop [] newPropEdges = newPropEdges"
| "referencesLoop cpe csn cpn cnode prop (ref # refs) newPropEdges =
     referencesLoop cpe csn cpn cnode prop refs (propRefBody cpe csn cpn cnode prop ref newPropEdges)"

fun propsLoop ::
  "Edge list \<Rightarrow> Node list \<Rightarrow> Node list \<Rightarrow> ComponentNode \<Rightarrow> PropNode list \<Rightarrow> Edge list \<Rightarrow> Edge list" where
  "propsLoop cpe csn cpn cnode [] newPropEdges = newPropEdges"
| "propsLoop cpe csn cpn cnode (prop # rest) newPropEdges =
     propsLoop cpe csn cpn cnode rest
       (referencesLoop cpe csn cpn cnode prop (references prop) newPropEdges)"

text \<open>
  A node that is not of type \<open>expanded\<close>, or whose \<open>data.component\<close> is missing, is skipped:
  \<open>expandedComponent\<close> is the component the loop body goes on with, if any. \<open>extractor\<close> is
  the arena the reference \<open>data.component\<close> is read in.
\<close>

definition expandedComponent :: "ComponentNode list \<Rightarrow> Node \<Rightarrow> ComponentNode option" where
  "expandedComponent extractor node =
     (if n_type node \<noteq> ''expanded'' then None
      else case component node of None \<Rightarrow> None | Some r \<Rightarrow> getComponent extractor r)"

fun nodesLoop ::
  "ComponentNode list \<Rightarrow> Edge list \<Rightarrow> Node list \<Rightarrow> Node list \<Rightarrow> Node list \<Rightarrow> Edge list \<Rightarrow> Edge list" where
  "nodesLoop extractor cpe csn cpn [] newPropEdges = newPropEdges"
| "nodesLoop extractor cpe csn cpn (node # nodes) newPropEdges =
     (case expandedComponent extractor node of
        None \<Rightarrow> nodesLoop extractor cpe csn cpn nodes newPropEdges
      | Some cnode \<Rightarrow>
          nodesLoop extractor cpe csn cpn nodes (propsLoop cpe csn cpn cnode (props cnode) newPropEdges))"

definition convertPropEdges ::
  "ComponentNode list \<Rightarrow> Node list \<Rightarrow> Edge list \<Rightarrow> Node list \<Rightarrow> Node list \<Rightarrow> Edge list" where
  "convertPropEdges extractor nodes currentPropEdges currentStateNodes currentPropNodes =
     nodesLoop extractor currentPropEdges currentStateNodes currentPropNodes nodes []"

section \<open>Layout of the component marks (MainView, \<open>convertComponentToMark\<close>)\<close>

text \<open>
  \<open>Array.prototype.sort\<close> with a comparator: the sort is stable, an element \<open>a\<close> stays before
  \<open>b\<close> unless \<open>compareFn(a, b) > 0\<close>. Insertion from the right end is such a sort.
\<close>

fun insertBy :: "('a \<Rightarrow> 'a \<Rightarrow> int) \<Rightarrow> 'a \<Rightarrow> 'a list \<Rightarrow> 'a list" where
  "insertBy compareFn a [] = [a]"
| "insertBy compareFn a (b # bs) =
     (if compareFn a b \<le> 0 then a # b # bs else b # insertBy compareFn a bs)"

definition arraySort :: "('a \<Rightarrow> 'a \<Rightarrow> int) \<Rightarrow> 'a list \<Rightarrow> 'a list" where
  "arraySort compareFn xs = foldr (insertBy compareFn) xs []"

text \<open>
  The variables the closure \<open>convertComponentToMark\<close> writes: the component objects (their
  \<open>children\<close> arrays are sorted in place), \<open>newNodes\<close>, \<open>index\<close> and \<open>maxLevel\<close>.
\<close>

record Layout =
  heap :: "ComponentNode list"
  newNodes :: "Node list"
  index :: nat
  maxLevel :: nat

text \<open>\<open>target.data.level = Math.max(targetLevel, level)\<close> on the node \<open>find\<close> returned.\<close>

fun raiseLevel :: "Node list \<Rightarrow> string \<Rightarrow> nat \<Rightarrow> Node list" where
  "raiseLevel [] i lv = []"
| "raiseLevel (n # ns) i lv =
     (if n_id n = i then n\<lparr>level := max (level n) lv\<rparr> # ns else n # raiseLevel ns i lv)"

text \<open>
  The first statements of \<open>convertComponentToMark(node, level)\<close>: a mark for \<open>node\<close> is pushed
  on \<open>newNodes\<close> and \<open>index\<close> incremented, unless one with its id is there, whose level is
  then raised; \<open>maxLevel\<close> is raised to \<open>level\<close>.
\<close>

definition markComponent :: "ComponentNode \<Rightarrow> nat \<Rightarrow> Layout \<Rightarrow> Layout" where
  "markComponent node lv s =
     (let s1 = (case find (\<lambda>n. n_id n = c_id node) (newNodes s) of
                  None \<Rightarrow>
                    s\<lparr>newNodes := newNodes s @
                         [\<lparr>n_id = c_id node, n_type = ''component'', parentId = None,
                           label = c_name node, level = lv, n_index = index s,
                           hasState = (length (states node) > 0),
                           hasProps = (length (props node) > 0),
                           component = Some (c_id node)\<rparr>],
                       index := index s + 1\<rparr>
                | Some tgt \<Rightarrow> s\<lparr>newNodes := raiseLevel (newNodes s) (c_id node) lv\<rparr>)
      in s1\<lparr>maxLevel := max (maxLevel s1) lv\<rparr>)"

text \<open>
  \<open>node.children.sort((a, b) => extractor.countDecendent(b) - extractor.countDecendent(a))\<close>:
  the \<open>children\<close> array of the component object is sorted in place.
\<close>

definition sortChildren :: "ComponentNode \<Rightarrow> Layout \<Rightarrow> Layout" where
  "sortChildren node s =
     s\<lparr>heap := setChildren (heap s) (c_id node)
                 (arraySort (\<lambda>a b. countDescendant (heap s) b - countDescendant (heap s) a)
                    (children node))\<rparr>"

text \<open>
  \<open>convertComponentToMark(node, level)\<close>, with \<open>node\<close> given by its id. The recursion has no
  visited check, so on a graph with a cycle it does not end; the first argument bounds the
  depth of the call stack, and \<open>None\<close> is a call that does not return within it (or a
  reference that denotes no object, which a graph of object references does not hold).
  \<open>forEachChild\<close> is \<open>node.children.forEach\<close> (and \<open>rootComponents.forEach\<close>), calling
  \<open>convertComponentToMark\<close> on each element with the level given; it walks the array as
  the sort has left it (a call below could write that array again only by reaching
  \<open>node\<close> once more, and such a call does not return).
\<close>

fun convertComponentToMark :: "nat \<Rightarrow> string \<Rightarrow> nat \<Rightarrow> Layout \<Rightarrow> Layout option"
  and forEachChild :: "nat \<Rightarrow> string list \<Rightarrow> nat \<Rightarrow> Layout \<Rightarrow> Layout option" where
  "convertComponentToMark 0 i lv s = None"
| "convertComponentToMark (Suc depth) i lv s =
     (case getComponent (heap s) i of
        None \<Rightarrow> None
      | Some node \<Rightarrow>
          (let s' = sortChildren node (markComponent node lv s)
           in forEachChild depth (childrenOf (heap s') (c_id node)) (lv + 1) s'))"
| "forEachChild depth [] lv s = Some s"
| "forEachChild depth (child # rest) lv s =
     (case convertComponentToMark depth child lv s of
        None \<Rightarrow> None
      | Some s' \<Rightarrow> forEachChild depth rest lv s')"

text \<open>
  The part of the effect of \<open>MainView\<close> that builds the marks: the roots are found, then
  each is converted at level 0, from empty \<open>newNodes\<close>.
\<close>

definition buildMarks :: "nat \<Rightarrow> ComponentNode list \<Rightarrow> Layout option" where
  "buildMarks depth components =
     forEachChild depth (map c_id (findRoots components components)) 0
       \<lparr>heap = components, newNodes = [], index = 0, maxLevel = 0\<rparr>"

section \<open>Notions the properties are stated with\<close>

text \<open>
  The order the spec asks of \<open>children\<close> (4.4): sorted by \<open>countDescendant\<close>, largest first,
  by a stable sort, so that children with equal counts keep their order.
\<close>

definition sortDescending :: "ComponentNode list \<Rightarrow> string list \<Rightarrow> string list" where
  "sortDescending g xs = sort_key (\<lambda>j. - countDescendant g j) xs"

text \<open>
  Two states of one component object that agree on every field but the order of
  \<open>children\<close>.
\<close>

definition sameButChildrenOrder :: "ComponentNode \<Rightarrow> ComponentNode \<Rightarrow> bool" where
  "sameButChildrenOrder c c' \<longleftrightarrow>
     c_id c' = c_id c \<and> c_name c' = c_name c \<and> props c' = props c \<and> states c' = states c \<and>
     effects c' = effects c \<and> falseChildren c' = falseChildren c \<and>
     mset (children c') = mset (children c)"

text \<open>
  The state of the children arrays during the layout of the graph \<open>g\<close>: the array of a
  component that has a mark is the sorted original array, any other array is untouched.
\<close>

definition marksSorted :: "ComponentNode list \<Rightarrow> Layout \<Rightarrow> bool" where
  "marksSorted g s \<longleftrightarrow>
     (\<forall>j. childrenOf (heap s) j =
        (if j \<in> n_id ` set (newNodes s) then sortDescending g (childrenOf g j)
         else childrenOf g j))"

text \<open>
  A call of \<open>convertComponentToMark\<close> on the component \<open>y\<close> returns within stack depth \<open>d\<close>,
  at any level and in any state whose component objects are those of \<open>g\<close> up to the order
  of \<open>children\<close>.
\<close>

definition callReturns :: "ComponentNode list \<Rightarrow> nat \<Rightarrow> string \<Rightarrow> bool" where
  "callReturns g d y \<longleftrightarrow>
     (\<forall>lv s. list_all2 sameButChildrenOrder g (heap s) \<longrightarrow>
        convertComponentToMark d y lv s \<noteq> None)"

section \<open>Example data\<close>



text \<open>
  Two components for the evaluations below: a counter whose effect reads a prop and calls
  a setter, and a form whose effect both lists the prop callback \<open>onChange\<close> among its
  dependencies and invokes it.
\<close>

definition counterComponent :: ComponentNode where
  "counterComponent =
     \<lparr>c_id = ''component-0'', c_name = ''Counter'',
      props = [\<lparr>p_id = ''prop-0'', p_name = ''step'', references = []\<rparr>],
      states = [\<lparr>s_id = ''state-0'', s_name = ''count''\<rparr>],
      effects = [\<lparr>e_id = ''effect-0'', dependencyIds = [''prop-0''],
                  handlingTargetIds = [''setter-0'']\<rparr>],
      children = [], falseChildren = []\<rparr>"

definition formComponent :: ComponentNode where
  "formComponent =
     \<lparr>c_id = ''component-1'', c_name = ''Form'',
      props = [\<lparr>p_id = ''prop-1'', p_name = ''onChange'', references = []\<rparr>],
      states = [\<lparr>s_id = ''state-1'', s_name = ''value''\<rparr>],
      effects = [\<lparr>e_id = ''effect-1'', dependencyIds = [''prop-1'', ''state-1''],
                  handlingTargetIds = [''prop-1'']\<rparr>],
      children = [], falseChildren = []\<rparr>"

text \<open>
  An expanded \<open>List\<close> component whose prop \<open>items\<close> is bound to \<open>state-1\<close>, to the setter of
  \<open>state-2\<close> and to \<open>state-9\<close>; the state nodes on display are \<open>state-1\<close> and \<open>state-2\<close>, and the
  edge for \<open>state-1\<close> is on display already.
\<close>

definition listComponent :: ComponentNode where
  "listComponent =
     \<lparr>c_id = ''component-2'', c_name = ''List'',
      props = [\<lparr>p_id = ''prop-2'', p_name = ''items'',
                references = [''state-1'', ''setter-2'', ''state-9'']\<rparr>],
      states = [], effects = [], children = [], falseChildren = []\<rparr>"

definition flowNode :: "string \<Rightarrow> string \<Rightarrow> string option \<Rightarrow> Node" where
  "flowNode i ty c =
     \<lparr>n_id = i, n_type = ty, parentId = None, label = [], level = 0, n_index = 0,
      hasState = False, hasProps = False, component = c\<rparr>"

definition shownPropEdge :: Edge where
  "shownPropEdge =
     \<lparr>edge_id = ''state-1-prop-2'', source = ''state-1'', target = ''prop-2'',
      style = Some \<lparr>stroke = ''#34C759'', strokeWidth = None\<rparr>, animated = True, zIndex = 50,
      markerEnd = \<lparr>markerType = ArrowClosed, markerColor = Some ''#34C759''\<rparr>,
      edgeData = Some (PropEdgeData ''state-1'' ''component-2''), sourceHandle = None\<rparr>"

text \<open>
  Three graphs for the evaluations below: two components that are each other's child, a
  component that renders itself, and an application whose \<open>Header\<close> has two parents.
\<close>

definition plainComponent :: "string \<Rightarrow> string \<Rightarrow> string list \<Rightarrow> ComponentNode" where
  "plainComponent i n cs =
     \<lparr>c_id = i, c_name = n, props = [], states = [], effects = [], children = cs,
      falseChildren = []\<rparr>"

definition cycleGraph :: "ComponentNode list" where
  "cycleGraph =
     [plainComponent ''component-0'' ''A'' [''component-1''],
      plainComponent ''component-1'' ''B'' [''component-0'']]"

definition selfGraph :: "ComponentNode list" where
  "selfGraph = [plainComponent ''component-0'' ''Tree'' [''component-0'']]"

definition appGraph :: "ComponentNode list" where
  "appGraph =
     [plainComponent ''component-0'' ''App'' [''component-1'', ''component-2''],
      plainComponent ''component-1'' ''Header'' [],
      plainComponent ''component-2'' ''Main'' [''component-3'', ''component-1''],
      plainComponent ''component-3'' ''List'' []]"

text \<open>
  The mark pushed for a component without props and states, and the state the layout of
  \<open>appGraph\<close> ends in: \<open>Main\<close> (two descendants) has moved before \<open>Header\<close> (none) in the
  children of \<open>App\<close>.
\<close>

definition componentMark :: "string \<Rightarrow> string \<Rightarrow> nat \<Rightarrow> nat \<Rightarrow> Node" where
  "componentMark i n lv ix =
     \<lparr>n_id = i, n_type = ''component'', parentId = None, label = n, level = lv, n_index = ix,
      hasState = False, hasProps = False, component = Some i\<rparr>"

definition appLayout :: Layout where
  "appLayout =
     \<lparr>heap = [plainComponent ''component-0'' ''App'' [''component-2'', ''component-1''],
              plainComponent ''component-1'' ''Header'' [],
              plainComponent ''component-2'' ''Main'' [''component-3'', ''component-1''],
              plainComponent ''component-3'' ''List'' []],
      newNodes = [componentMark ''component-0'' ''App'' 0 0,
                  componentMark ''component-2'' ''Main'' 1 1,
                  componentMark ''component-3'' ''List'' 2 2,
                  componentMark ''component-1'' ''Header'' 2 3],
      index = 4, maxLevel = 2\<rparr>"

section \<open>Properties of the string methods\<close>

lemma startsWith_prefix: "startsWith s p = prefix p s"
  by (induction s p rule: startsWith.induct) auto





lemma startsWith_iff: "startsWith s p \<longleftrightarrow> (\<exists>post. s = p @ post)"
  by (simp add: startsWith_prefix prefix_def)

text \<open>Replacing a pattern the string starts with replaces that prefix.\<close>

lemma replace_prefix: "replace (p @ s) p r = r @ s"
proof (cases "p @ s")
  case Nil
  then show ?thesis by simp
next
  case (Cons c cs)
  have "startsWith (p @ s) p" by (simp add: startsWith_prefix)
  then have "replace (c # cs) p r = r @ drop (length p) (c # cs)"
    by (simp add: Cons)
  then show ?thesis by (simp flip: Cons)
qed

section \<open>File filtering before \<open>setProject\<close>\<close>







section \<open>Setter references and their resolution\<close>

text \<open>
  C2, as the code has it. The setter reference of the state id \<open>state<sfx>\<close>, derived by
  substituting the kind tag, is \<open>setter<sfx>\<close>; \<open>convertPropEdges\<close> resolves \<open>setter<sfx>\<close> to
  \<open>state<sfx>\<close>, so derivation followed by resolution is the identity on state ids; and
  \<open>setter<sfx>\<close> is the only reference starting with \<open>setter\<close> that resolves to \<open>state<sfx>\<close>.
\<close>

theorem setter_round_trip:
  "setterRefOf (''state'' @ sfx) = ''setter'' @ sfx \<and>
   setterNodeId (''setter'' @ sfx) = ''state'' @ sfx \<and>
   setterNodeId (setterRefOf (''state'' @ sfx)) = ''state'' @ sfx \<and>
   (\<forall>r. startsWith r ''setter'' \<longrightarrow>
      (setterNodeId r = ''state'' @ sfx \<longleftrightarrow> r = ''setter'' @ sfx))"
  by (auto simp: setterRefOf_def setterNodeId_def startsWith_iff)

theorem setter_round_trip_witness:
  "startsWith ''setter-7'' ''setter'' \<and> setterRefOf ''state-7'' = ''setter-7'' \<and>
   setterNodeId ''setter-7'' = ''state-7'' \<and> setterNodeId (setterRefOf ''state-7'') = ''state-7''"
  using setter_round_trip [of "''-7''"] by simp

text \<open>
  The reference written \<open>setter-state-1\<close> does not resolve to \<open>state-1\<close>: only the first
  occurrence of \<open>setter\<close> is replaced, which gives \<open>state-state-1\<close>.
\<close>

theorem setter_state_form_unresolved:
  "setterNodeId ''setter-state-1'' = ''state-state-1'' \<and>
   setterNodeId ''setter-state-1'' \<noteq> ''state-1''"
  by (simp add: setterNodeId_def)

section \<open>Effect edges (\<open>convertEffectEdges\<close>)\<close>

lemma pushDependencyEdges_trace:
  "map (\<lambda>e. (edge_id e, source e, target e)) (pushDependencyEdges cid E ds edges) =
   map (\<lambda>e. (edge_id e, source e, target e)) edges @ map (\<lambda>d. (e_id E @ ''-'' @ d, d, e_id E)) ds"
  by (induction ds arbitrary: edges) auto

lemma pushHandlingEdges_trace:
  "map (\<lambda>e. (edge_id e, source e, target e)) (pushHandlingEdges cid E ts edges) =
   map (\<lambda>e. (edge_id e, source e, target e)) edges @ map (\<lambda>t. (e_id E @ ''-'' @ t, e_id E, t)) ts"
  by (induction ts arbitrary: edges) auto

lemma effectsLoop_trace:
  "map (\<lambda>e. (edge_id e, source e, target e)) (effectsLoop cid Es edges) =
   map (\<lambda>e. (edge_id e, source e, target e)) edges @
   concat (map (\<lambda>E. map (\<lambda>d. (e_id E @ ''-'' @ d, d, e_id E)) (dependencyIds E) @
                     map (\<lambda>t. (e_id E @ ''-'' @ t, e_id E, t)) (handlingTargetIds E)) Es)"
  by (induction Es arbitrary: edges) (auto simp: pushDependencyEdges_trace pushHandlingEdges_trace)

lemma convertEffectEdges_trace:
  "map (\<lambda>e. (edge_id e, source e, target e)) (convertEffectEdges c) =
   concat (map (\<lambda>E. map (\<lambda>d. (e_id E @ ''-'' @ d, d, e_id E)) (dependencyIds E) @
                     map (\<lambda>t. (e_id E @ ''-'' @ t, e_id E, t)) (handlingTargetIds E)) (effects c))"
  by (simp add: convertEffectEdges_def effectsLoop_trace)

lemma convertEffectEdges_length:
  "length (convertEffectEdges c) =
   (\<Sum>E\<leftarrow>effects c. length (dependencyIds E) + length (handlingTargetIds E))"
proof -
  have "length (convertEffectEdges c) = length (map (\<lambda>e. (edge_id e, source e, target e)) (convertEffectEdges c))"
    by simp
  also have "\<dots> = (\<Sum>E\<leftarrow>effects c. length (dependencyIds E) + length (handlingTargetIds E))"
    unfolding convertEffectEdges_trace by (simp add: length_concat comp_def)
  finally show ?thesis .
qed

lemma convertEffectEdges_ends:
  assumes "edge \<in> set (convertEffectEdges c)"
  shows "\<exists>E \<in> set (effects c).
           (source edge \<in> set (dependencyIds E) \<and> target edge = e_id E) \<or>
           (source edge = e_id E \<and> target edge \<in> set (handlingTargetIds E))"
proof -
  from assms have "(edge_id edge, source edge, target edge)
      \<in> set (map (\<lambda>e. (edge_id e, source e, target e)) (convertEffectEdges c))"
    by (simp add: image_iff) blast
  then show ?thesis unfolding convertEffectEdges_trace by auto
qed

text \<open>
  C9, as the code has it. The edges of \<open>convertEffectEdges\<close> are, effect by effect, one edge
  per entry of \<open>dependencyIds\<close> from the dependency to the effect, then one edge per entry
  of \<open>handlingTargetIds\<close> from the effect to the target; their number is the sum over the
  effects of the two lengths. Where the effects of the component have distinct ids, no
  effect lists one id both as a dependency and as a handling target, and no effect id is
  listed as either, no edge runs from an effect to one of its dependencies or from a
  handling target into the effect.
\<close>

theorem effect_edges:
  "map (\<lambda>e. (source e, target e)) (convertEffectEdges c) =
     concat (map (\<lambda>E. map (\<lambda>d. (d, e_id E)) (dependencyIds E) @
                       map (\<lambda>t. (e_id E, t)) (handlingTargetIds E)) (effects c)) \<and>
   length (convertEffectEdges c) =
     (\<Sum>E\<leftarrow>effects c. length (dependencyIds E) + length (handlingTargetIds E)) \<and>
   (distinct (map e_id (effects c)) \<and>
    (\<forall>E \<in> set (effects c).
       set (dependencyIds E) \<inter> set (handlingTargetIds E) = {} \<and>
       (set (dependencyIds E) \<union> set (handlingTargetIds E)) \<inter> e_id ` set (effects c) = {}) \<longrightarrow>
    (\<forall>edge \<in> set (convertEffectEdges c). \<forall>E \<in> set (effects c).
       \<not> (source edge = e_id E \<and> target edge \<in> set (dependencyIds E)) \<and>
       \<not> (target edge = e_id E \<and> source edge \<in> set (handlingTargetIds E))))"
proof (intro conjI impI ballI)
  have "map (\<lambda>e. (source e, target e)) (convertEffectEdges c) =
        map (\<lambda>t. (fst (snd t), snd (snd t))) (map (\<lambda>e. (edge_id e, source e, target e)) (convertEffectEdges c))"
    by (simp add: comp_def)
  also have "\<dots> = concat (map (\<lambda>E. map (\<lambda>d. (d, e_id E)) (dependencyIds E) @
                       map (\<lambda>t. (e_id E, t)) (handlingTargetIds E)) (effects c))"
    unfolding convertEffectEdges_trace by (simp add: map_concat comp_def)
  finally show "map (\<lambda>e. (source e, target e)) (convertEffectEdges c) =
     concat (map (\<lambda>E. map (\<lambda>d. (d, e_id E)) (dependencyIds E) @
                       map (\<lambda>t. (e_id E, t)) (handlingTargetIds E)) (effects c))" .
next
  show "length (convertEffectEdges c) =
     (\<Sum>E\<leftarrow>effects c. length (dependencyIds E) + length (handlingTargetIds E))"
    by (rule convertEffectEdges_length)
next
  fix edge E
  assume H: "distinct (map e_id (effects c)) \<and>
    (\<forall>E \<in> set (effects c).
       set (dependencyIds E) \<inter> set (handlingTargetIds E) = {} \<and>
       (set (dependencyIds E) \<union> set (handlingTargetIds E)) \<inter> e_id ` set (effects c) = {})"
    and edge: "edge \<in> set (convertEffectEdges c)" and E: "E \<in> set (effects c)"
  from H have inj: "\<And>A B. A \<in> set (effects c) \<Longrightarrow> B \<in> set (effects c) \<Longrightarrow> e_id A = e_id B \<Longrightarrow> A = B"
    by (auto simp: distinct_map inj_on_def)
  from convertEffectEdges_ends[OF edge] obtain E' where E': "E' \<in> set (effects c)"
    and ends: "(source edge \<in> set (dependencyIds E') \<and> target edge = e_id E') \<or>
           (source edge = e_id E' \<and> target edge \<in> set (handlingTargetIds E'))" by blast
  show "\<not> (source edge = e_id E \<and> target edge \<in> set (dependencyIds E))"
    using H E E' ends inj[OF E E'] by (auto simp: disjoint_iff image_iff)
  show "\<not> (target edge = e_id E \<and> source edge \<in> set (handlingTargetIds E))"
    using H E E' ends inj[OF E E'] by (auto simp: disjoint_iff image_iff)
qed

theorem effect_edges_witness:
  "distinct (map e_id (effects counterComponent)) \<and>
   map (\<lambda>e. (source e, target e)) (convertEffectEdges counterComponent) =
     [(''prop-0'', ''effect-0''), (''effect-0'', ''setter-0'')] \<and>
   length (convertEffectEdges counterComponent) = 2 \<and>
   \<not> (\<exists>edge \<in> set (convertEffectEdges counterComponent).
        source edge = ''effect-0'' \<and> target edge = ''prop-0'')"
proof -
  have pre: "distinct (map e_id (effects counterComponent)) \<and>
    (\<forall>E \<in> set (effects counterComponent).
       set (dependencyIds E) \<inter> set (handlingTargetIds E) = {} \<and>
       (set (dependencyIds E) \<union> set (handlingTargetIds E)) \<inter> e_id ` set (effects counterComponent) = {})"
    by (simp add: counterComponent_def)
  have E: "\<lparr>e_id = ''effect-0'', dependencyIds = [''prop-0''], handlingTargetIds = [''setter-0'']\<rparr>
      \<in> set (effects counterComponent)"
    by (simp add: counterComponent_def)
  from effect_edges [of counterComponent] pre
  have no: "\<forall>edge \<in> set (convertEffectEdges counterComponent). \<forall>E \<in> set (effects counterComponent).
       \<not> (source edge = e_id E \<and> target edge \<in> set (dependencyIds E))"
    by blast
  have "\<not> (\<exists>edge \<in> set (convertEffectEdges counterComponent).
        source edge = ''effect-0'' \<and> target edge = ''prop-0'')"
    using no E by fastforce
  moreover have "map (\<lambda>e. (source e, target e)) (convertEffectEdges counterComponent) =
     [(''prop-0'', ''effect-0''), (''effect-0'', ''setter-0'')]"
    using effect_edges [of counterComponent] by (simp add: counterComponent_def)
  moreover have "length (convertEffectEdges counterComponent) = 2"
    using effect_edges [of counterComponent] by (simp add: counterComponent_def)
  ultimately show ?thesis using pre by blast
qed

text \<open>
  An id listed both as a dependency and as a handling target of an effect gets an edge in
  each direction: in \<open>formComponent\<close> an edge runs from the effect to its dependency
  \<open>prop-1\<close>.
\<close>

theorem effect_edge_to_dependency:
  "\<exists>edge \<in> set (convertEffectEdges formComponent). \<exists>E \<in> set (effects formComponent).
     source edge = e_id E \<and> target edge \<in> set (dependencyIds E)"
  by (simp add: formComponent_def convertEffectEdges_def)

section \<open>Prop edges (\<open>convertPropEdges\<close>)\<close>

lemma propRefBody_append:
  "propRefBody cpe csn cpn c p r acc = acc @ propRefBody cpe csn cpn c p r []"
  by (simp add: propRefBody_def Let_def split: option.splits)

lemma referencesLoop_concat:
  "referencesLoop cpe csn cpn c p rs acc =
     acc @ concat (map (\<lambda>r. propRefBody cpe csn cpn c p r []) rs)"
proof (induction rs arbitrary: acc)
  case Nil
  show ?case by simp
next
  case (Cons r rs)
  show ?case
    by (simp add: Cons.IH) (subst propRefBody_append, simp)
qed

lemma propsLoop_concat:
  "propsLoop cpe csn cpn c ps acc =
     acc @ concat (map (\<lambda>p. concat (map (\<lambda>r. propRefBody cpe csn cpn c p r []) (references p))) ps)"
  by (induction ps arbitrary: acc) (simp_all add: referencesLoop_concat)

lemma nodesLoop_concat:
  "nodesLoop g cpe csn cpn ns acc =
     acc @ concat (map (\<lambda>node. case expandedComponent g node of
                         None \<Rightarrow> []
                       | Some c \<Rightarrow> concat (map (\<lambda>p. concat (map (\<lambda>r. propRefBody cpe csn cpn c p r [])
                                                        (references p))) (props c))) ns)"
  by (induction ns arbitrary: acc) (simp_all add: propsLoop_concat split: option.splits)

lemma find_SomeD: "find P xs = Some x \<Longrightarrow> P x \<and> x \<in> set xs"
  by (auto simp: find_Some_iff)

lemma find_Some_image: "find (\<lambda>x. f x = k) xs = Some y \<Longrightarrow> k \<in> f ` set xs"
  by (force dest: find_SomeD)

lemma find_None_image: "find (\<lambda>x. f x = k) xs = None \<longleftrightarrow> k \<notin> f ` set xs"
  by (auto simp: find_None_iff)

lemma propRefBody_fresh:
  assumes "e \<in> set (propRefBody cpe csn cpn c p r [])"
  shows "edge_id e \<notin> edge_id ` set cpe \<and> source e \<in> n_id ` (set csn \<union> set cpn)"
proof (cases "find (\<lambda>edge. edge_id edge = r @ ''-'' @ p_id p) cpe")
  case (Some found)
  with assms show ?thesis
    by (simp add: propRefBody_def Let_def split: option.splits if_splits)
next
  case None
  then have fresh: "r @ ''-'' @ p_id p \<notin> edge_id ` set cpe"
    by (simp add: find_None_image)
  show ?thesis
  proof (cases "startsWith r ''setter''")
    case True
    show ?thesis
    proof (cases "find (\<lambda>t. n_id t = setterNodeId r) csn")
      case None
      with True assms show ?thesis by (simp add: propRefBody_def)
    next
      case (Some tgt)
      then have "setterNodeId r \<in> n_id ` set csn"
        by (rule find_Some_image)
      with True Some \<open>find (\<lambda>edge. edge_id edge = r @ ''-'' @ p_id p) cpe = None\<close> fresh assms
      show ?thesis by (auto simp: propRefBody_def)
    qed
  next
    case False
    show ?thesis
    proof (cases "find (\<lambda>t. n_id t = r) csn")
      case (Some tgt)
      then have "r \<in> n_id ` set csn" by (rule find_Some_image)
      with False Some \<open>find (\<lambda>edge. edge_id edge = r @ ''-'' @ p_id p) cpe = None\<close> fresh assms
      show ?thesis by (auto simp: propRefBody_def)
    next
      case None
      note noState = this
      show ?thesis
      proof (cases "find (\<lambda>t. n_id t = r) cpn")
        case None
        with False noState assms show ?thesis by (simp add: propRefBody_def)
      next
        case (Some tgt)
        then have "r \<in> n_id ` set cpn" by (rule find_Some_image)
        with False Some noState \<open>find (\<lambda>edge. edge_id edge = r @ ''-'' @ p_id p) cpe = None\<close> fresh assms
        show ?thesis by (auto simp: propRefBody_def)
      qed
    qed
  qed
qed

lemma propRefBody_unresolved:
  assumes "if startsWith r ''setter'' then setterNodeId r \<notin> n_id ` set csn
           else r \<notin> n_id ` (set csn \<union> set cpn)"
  shows "propRefBody cpe csn cpn c p r acc = acc"
proof (cases "startsWith r ''setter''")
  case True
  with assms have "find (\<lambda>t. n_id t = setterNodeId r) csn = None"
    by (simp add: find_None_image)
  with True show ?thesis by (simp add: propRefBody_def)
next
  case False
  with assms have "find (\<lambda>t. n_id t = r) csn = None" "find (\<lambda>t. n_id t = r) cpn = None"
    by (simp_all add: find_None_image image_Un)
  with False show ?thesis by (simp add: propRefBody_def)
qed

text \<open>
  C10. No edge \<open>convertPropEdges\<close> returns has an id that occurs in \<open>currentPropEdges\<close>, and
  the source of each is the id of a supplied state or prop node. The result is the
  concatenation, over the expanded nodes, their props and the references of each, of what
  the loop body adds for that reference alone; and for a reference whose target node is
  not among the supplied nodes the body adds nothing, whatever was collected before. No
  branch of the function raises.
\<close>

theorem prop_edges:
  "(\<forall>e \<in> set (convertPropEdges g nodes cpe csn cpn).
      edge_id e \<notin> edge_id ` set cpe \<and> source e \<in> n_id ` (set csn \<union> set cpn)) \<and>
   convertPropEdges g nodes cpe csn cpn =
     concat (map (\<lambda>node. case expandedComponent g node of
                    None \<Rightarrow> []
                  | Some c \<Rightarrow> concat (map (\<lambda>p. concat (map (\<lambda>r. propRefBody cpe csn cpn c p r [])
                                                   (references p))) (props c))) nodes) \<and>
   (\<forall>c p r acc.
      (if startsWith r ''setter'' then setterNodeId r \<notin> n_id ` set csn
       else r \<notin> n_id ` (set csn \<union> set cpn)) \<longrightarrow>
      propRefBody cpe csn cpn c p r acc = acc)"
proof (intro conjI ballI allI impI)
  fix e
  assume "e \<in> set (convertPropEdges g nodes cpe csn cpn)"
  then obtain c p r where "e \<in> set (propRefBody cpe csn cpn c p r [])"
    by (auto simp: convertPropEdges_def nodesLoop_concat split: option.splits)
  then have "edge_id e \<notin> edge_id ` set cpe \<and> source e \<in> n_id ` (set csn \<union> set cpn)"
    by (rule propRefBody_fresh)
  then show "edge_id e \<notin> edge_id ` set cpe" and "source e \<in> n_id ` (set csn \<union> set cpn)"
    by simp_all
next
  show "convertPropEdges g nodes cpe csn cpn =
     concat (map (\<lambda>node. case expandedComponent g node of
                    None \<Rightarrow> []
                  | Some c \<Rightarrow> concat (map (\<lambda>p. concat (map (\<lambda>r. propRefBody cpe csn cpn c p r [])
                                                   (references p))) (props c))) nodes)"
    by (simp add: convertPropEdges_def nodesLoop_concat)
next
  fix c p r acc
  assume "if startsWith r ''setter'' then setterNodeId r \<notin> n_id ` set csn
       else r \<notin> n_id ` (set csn \<union> set cpn)"
  then show "propRefBody cpe csn cpn c p r acc = acc"
    by (rule propRefBody_unresolved)
qed

theorem prop_edges_witness:
  "map edge_id (convertPropEdges [listComponent]
       [flowNode ''component-2'' ''expanded'' (Some ''component-2'')] [shownPropEdge]
       [flowNode ''state-1'' ''state'' None, flowNode ''state-2'' ''state'' None] []) =
     [''setter-2-prop-2''] \<and>
   propRefBody [shownPropEdge]
       [flowNode ''state-1'' ''state'' None, flowNode ''state-2'' ''state'' None] []
       listComponent \<lparr>p_id = ''prop-2'', p_name = ''items'',
                references = [''state-1'', ''setter-2'', ''state-9'']\<rparr> ''state-9'' [shownPropEdge] =
     [shownPropEdge]"
proof -
  let ?csn = "[flowNode ''state-1'' ''state'' None, flowNode ''state-2'' ''state'' None]"
  have absent: "if startsWith ''state-9'' ''setter'' then setterNodeId ''state-9'' \<notin> n_id ` set ?csn
       else ''state-9'' \<notin> n_id ` (set ?csn \<union> set [])"
    by (simp add: flowNode_def)
  note inst = prop_edges [of "[listComponent]"
      "[flowNode ''component-2'' ''expanded'' (Some ''component-2'')]" "[shownPropEdge]" ?csn "[]"]
  from inst absent have "propRefBody [shownPropEdge] ?csn [] listComponent
       \<lparr>p_id = ''prop-2'', p_name = ''items'',
         references = [''state-1'', ''setter-2'', ''state-9'']\<rparr> ''state-9'' [shownPropEdge] =
     [shownPropEdge]"
    by blast
  moreover have "map edge_id (convertPropEdges [listComponent]
       [flowNode ''component-2'' ''expanded'' (Some ''component-2'')] [shownPropEdge] ?csn []) =
     [''setter-2-prop-2'']"
    by (subst inst [THEN conjunct2, THEN conjunct1])
       (simp add: listComponent_def flowNode_def shownPropEdge_def expandedComponent_def
          getComponent_def propRefBody_def setterNodeId_def Let_def)
  ultimately show ?thesis by blast
qed

section \<open>The traversal visits the descendants, each once\<close>

lemmas graph_eval =
  plainComponent_def childrenOf_def getComponent_def visitOrder_def visitDescendant_def

lemma childRel_iff: "(x, y) \<in> childRel g \<longleftrightarrow> y \<in> set (childrenOf g x)"
  by (simp add: childRel_def)

lemma visitLoop_keeps: "set visited \<subseteq> set (visitLoop g stack visited)"
  by (induction g stack visited rule: visitLoop.induct) auto

lemma visitLoop_stack: "set stack \<subseteq> set (visitLoop g stack visited)"
proof (induction g stack visited rule: visitLoop.induct)
  case (1 g visited)
  show ?case by simp
next
  case (2 g x stack visited)
  show ?case
  proof (cases "x \<in> set visited")
    case True
    with 2 visitLoop_keeps[of visited g stack] show ?thesis by auto
  next
    case False
    have "x \<in> set (visitLoop g (childrenOf g x @ stack) (visited @ [x]))"
      using visitLoop_keeps[of "visited @ [x]" g "childrenOf g x @ stack"] by auto
    with False 2 show ?thesis by auto
  qed
qed

lemma visitLoop_distinct: "distinct visited \<Longrightarrow> distinct (visitLoop g stack visited)"
  by (induction g stack visited rule: visitLoop.induct) auto

lemma visitLoop_sound:
  "set (visitLoop g stack visited) \<subseteq> set visited \<union> (childRel g)\<^sup>* `` set stack"
proof (induction g stack visited rule: visitLoop.induct)
  case (1 g visited)
  show ?case by simp
next
  case (2 g x stack visited)
  show ?case
  proof (cases "x \<in> set visited")
    case True
    with 2 show ?thesis by auto
  next
    case False
    have "(childRel g)\<^sup>* `` set (childrenOf g x) \<subseteq> (childRel g)\<^sup>* `` {x}"
      by (auto simp: childRel_iff intro: converse_rtrancl_into_rtrancl)
    with False 2 show ?thesis by (auto simp: Image_Un)
  qed
qed

lemma visitLoop_closed:
  assumes "\<forall>v \<in> set visited. set (childrenOf g v) \<subseteq> set visited \<union> set stack"
  shows "\<forall>v \<in> set (visitLoop g stack visited). set (childrenOf g v) \<subseteq> set (visitLoop g stack visited)"
  using assms
proof (induction g stack visited rule: visitLoop.induct)
  case (1 g visited)
  then show ?case by simp
next
  case (2 g x stack visited)
  show ?case
  proof (cases "x \<in> set visited")
    case True
    have "\<forall>v \<in> set visited. set (childrenOf g v) \<subseteq> set visited \<union> set stack"
      using "2.prems" True by auto
    with 2 True show ?thesis by simp
  next
    case False
    have "\<forall>v \<in> set (visited @ [x]). set (childrenOf g v) \<subseteq> set (visited @ [x]) \<union> set (childrenOf g x @ stack)"
      using "2.prems" by auto
    with 2 False show ?thesis by simp
  qed
qed

lemma visitOrder_distinct: "distinct (visitOrder g i)"
  by (simp add: visitOrder_def visitLoop_distinct)

lemma visitOrder_set: "set (visitOrder g i) = (childRel g)\<^sup>+ `` {i}"
proof
  have "set (visitOrder g i) \<subseteq> (childRel g)\<^sup>* `` set (childrenOf g i)"
    using visitLoop_sound[of g "childrenOf g i" "[]"] by (simp add: visitOrder_def)
  also have "\<dots> \<subseteq> (childRel g)\<^sup>+ `` {i}"
    by (auto simp: childRel_iff intro: rtrancl_into_trancl2)
  finally show "set (visitOrder g i) \<subseteq> (childRel g)\<^sup>+ `` {i}" .
next
  have closed: "\<forall>v \<in> set (visitOrder g i). set (childrenOf g v) \<subseteq> set (visitOrder g i)"
    unfolding visitOrder_def by (rule visitLoop_closed) simp
  have start: "set (childrenOf g i) \<subseteq> set (visitOrder g i)"
    unfolding visitOrder_def by (rule visitLoop_stack)
  have "y \<in> set (visitOrder g i)" if "(i, y) \<in> (childRel g)\<^sup>+" for y
    using that
  proof (induction rule: trancl_induct)
    case (base y)
    with start show ?case by (auto simp: childRel_iff)
  next
    case (step y z)
    with closed show ?case by (auto simp: childRel_iff)
  qed
  then show "(childRel g)\<^sup>+ `` {i} \<subseteq> set (visitOrder g i)" by auto
qed

text \<open>
  C4. The traversal is a total function, so every call ends, on a graph with cycles too.
  The calls of \<open>visitFn\<close>, logged in order, are pairwise distinct and are exactly the
  components reachable from the start by one or more \<open>children\<close> edges; \<open>falseChildren\<close> play
  no part in \<open>childRel\<close>. Any \<open>visitFn\<close> is run along that log.
\<close>

theorem visit_each_once:
  "distinct (visitDescendant g i (\<lambda>child calls. calls @ [child]) []) \<and>
   set (visitDescendant g i (\<lambda>child calls. calls @ [child]) []) = (childRel g)\<^sup>+ `` {i} \<and>
   visitDescendant g i visitFn st =
     fold visitFn (visitDescendant g i (\<lambda>child calls. calls @ [child]) []) st"
proof -
  have "fold (\<lambda>child calls. calls @ [child]) xs acc = acc @ xs" for xs acc :: "string list"
    by (induction xs arbitrary: acc) auto
  then have "visitDescendant g i (\<lambda>child calls. calls @ [child]) [] = visitOrder g i"
    by (simp add: visitDescendant_def)
  then show ?thesis
    by (simp add: visitOrder_distinct visitOrder_set) (simp add: visitDescendant_def)
qed

text \<open>On the two-component cycle, started at \<open>A\<close>: \<open>B\<close> is visited, then \<open>A\<close>, and no more.\<close>

theorem visit_cycle:
  "visitDescendant cycleGraph ''component-0'' (\<lambda>child calls. calls @ [child]) [] =
     [''component-1'', ''component-0''] \<and>
   (childRel cycleGraph)\<^sup>+ `` {''component-0''} = {''component-0'', ''component-1''}"
proof -
  have log: "visitDescendant cycleGraph ''component-0'' (\<lambda>child calls. calls @ [child]) [] =
     [''component-1'', ''component-0'']"
    by (simp add: cycleGraph_def graph_eval)
  from visit_each_once [of cycleGraph "''component-0''" "\<lambda>child calls. calls @ [child]" "[]"]
  have "set (visitDescendant cycleGraph ''component-0'' (\<lambda>child calls. calls @ [child]) []) =
      (childRel cycleGraph)\<^sup>+ `` {''component-0''}"
    by blast
  with log have "(childRel cycleGraph)\<^sup>+ `` {''component-0''} = set [''component-1'', ''component-0'']"
    by simp
  with log show ?thesis by auto
qed

section \<open>Root discovery\<close>

lemma visitDescendant_push:
  "visitDescendant g i (\<lambda>child v. v @ [child]) visited = visited @ visitOrder g i"
proof -
  have "fold (\<lambda>child v. v @ [child]) xs visited = visited @ xs" for xs
    by (induction xs arbitrary: visited) auto
  then show ?thesis by (simp add: visitDescendant_def)
qed

lemma descendants_closed:
  "x \<in> (childRel g)\<^sup>+ `` {i} \<Longrightarrow> (childRel g)\<^sup>+ `` {x} \<subseteq> (childRel g)\<^sup>+ `` {i}"
  by auto

lemma findRootsVisit_set:
  assumes "\<forall>x \<in> set visited. (childRel g)\<^sup>+ `` {x} \<subseteq> set visited"
  shows "set (findRootsVisit g cs visited) = set visited \<union> (\<Union>c \<in> set cs. (childRel g)\<^sup>+ `` {c_id c})"
  using assms
proof (induction cs arbitrary: visited)
  case Nil
  show ?case by simp
next
  case (Cons c cs)
  show ?case
  proof (cases "c_id c \<in> set visited")
    case True
    with Cons.prems have "(childRel g)\<^sup>+ `` {c_id c} \<subseteq> set visited" by blast
    with True Cons.IH[OF Cons.prems] show ?thesis by auto
  next
    case False
    let ?v = "visited @ visitOrder g (c_id c)"
    have "\<forall>x \<in> set ?v. (childRel g)\<^sup>+ `` {x} \<subseteq> set ?v"
    proof
      fix x assume "x \<in> set ?v"
      then consider "x \<in> set visited" | "x \<in> (childRel g)\<^sup>+ `` {c_id c}"
        by (auto simp: visitOrder_set)
      then show "(childRel g)\<^sup>+ `` {x} \<subseteq> set ?v"
      proof cases
        case 1
        with Cons.prems show ?thesis by auto
      next
        case 2
        from descendants_closed[OF this] show ?thesis by (auto simp: visitOrder_set)
      qed
    qed
    from Cons.IH[OF this] False show ?thesis
      by (simp add: visitDescendant_push visitOrder_set Un_assoc)
  qed
qed

lemma findRootsCollect_filter:
  "findRootsCollect cs visited roots = roots @ filter (\<lambda>c. c_id c \<notin> set visited) cs"
  by (induction cs arbitrary: roots) auto

lemma findRoots_filter:
  "findRoots cs g = filter (\<lambda>c. \<forall>p \<in> set cs. c_id c \<notin> set (visitOrder g (c_id p))) cs"
proof -
  have "set (findRootsVisit g cs []) = (\<Union>c \<in> set cs. set (visitOrder g (c_id c)))"
    using findRootsVisit_set[of "[]" g cs] by (simp add: visitOrder_set)
  then show ?thesis
    by (simp add: findRoots_def findRootsCollect_filter)
qed

lemma root_ancestor:
  assumes acyc: "\<forall>c \<in> set g. c_id c \<notin> set (visitOrder g (c_id c))"
    and c: "c \<in> set g" and nonroot: "c \<notin> set (findRoots g g)"
  shows "\<exists>r \<in> set (findRoots g g). c_id c \<in> set (visitOrder g (c_id r))"
proof -
  let ?E = "(childRel g)\<^sup>+"
  let ?lt = "{(q, p). q \<in> set g \<and> p \<in> set g \<and> (c_id q, c_id p) \<in> ?E}"
  let ?A = "{p \<in> set g. (c_id p, c_id c) \<in> ?E}"
  have "trans ?lt" by (rule transI) (auto intro: trancl_trans)
  then have "?lt\<^sup>+ = ?lt" by (rule trancl_id)
  moreover have "(x, x) \<notin> ?lt" for x using acyc by (auto simp: visitOrder_set)
  ultimately have "acyclic ?lt" by (simp add: acyclic_def)
  moreover have "finite ?lt" by (rule finite_subset[of _ "set g \<times> set g"]) auto
  ultimately have "wf ?lt" by (rule finite_acyclic_wf[rotated])
  from c nonroot obtain p where "p \<in> ?A"
    by (auto simp: findRoots_filter visitOrder_set)
  with \<open>wf ?lt\<close> obtain m where m: "m \<in> ?A" and min: "\<And>q. (q, m) \<in> ?lt \<Longrightarrow> q \<notin> ?A"
    by (rule wfE_min) blast
  have "\<forall>q \<in> set g. (c_id q, c_id m) \<notin> ?E"
  proof
    fix q assume q: "q \<in> set g"
    show "(c_id q, c_id m) \<notin> ?E"
    proof
      assume qm: "(c_id q, c_id m) \<in> ?E"
      with q m have "(q, m) \<in> ?lt" by simp
      from min[OF this] q have "(c_id q, c_id c) \<notin> ?E" by simp
      moreover from qm m have "(c_id q, c_id c) \<in> ?E" by (auto intro: trancl_trans)
      ultimately show False by contradiction
    qed
  qed
  with m have "m \<in> set (findRoots g g)" by (simp add: findRoots_filter visitOrder_set)
  with m show ?thesis by (auto simp: visitOrder_set)
qed

text \<open>
  C1, as the code has it. \<open>findRoots\<close> returns, in the order of \<open>componentList\<close>, the
  components that no traversal started from a component of \<open>componentList\<close> (the component
  itself included) visits. No root is visited from a root. When no component is its own
  descendant, every component is a root or is visited from some root, and not both.
\<close>

theorem roots_found:
  "findRoots g g = filter (\<lambda>c. \<forall>p \<in> set g. c_id c \<notin> set (visitOrder g (c_id p))) g \<and>
   (\<forall>r \<in> set (findRoots g g). \<forall>c \<in> set (findRoots g g). c_id c \<notin> set (visitOrder g (c_id r))) \<and>
   ((\<forall>c \<in> set g. c_id c \<notin> set (visitOrder g (c_id c))) \<longrightarrow>
    (\<forall>c \<in> set g. (c \<in> set (findRoots g g)) \<noteq>
                   (\<exists>r \<in> set (findRoots g g). c_id c \<in> set (visitOrder g (c_id r)))))"
proof (intro conjI impI ballI)
  show "findRoots g g = filter (\<lambda>c. \<forall>p \<in> set g. c_id c \<notin> set (visitOrder g (c_id p))) g"
    by (rule findRoots_filter)
next
  fix r c assume "r \<in> set (findRoots g g)" "c \<in> set (findRoots g g)"
  then show "c_id c \<notin> set (visitOrder g (c_id r))"
    by (simp add: findRoots_filter)
next
  fix c
  assume acyc: "\<forall>c \<in> set g. c_id c \<notin> set (visitOrder g (c_id c))" and c: "c \<in> set g"
  show "(c \<in> set (findRoots g g)) \<noteq>
        (\<exists>r \<in> set (findRoots g g). c_id c \<in> set (visitOrder g (c_id r)))"
  proof (cases "c \<in> set (findRoots g g)")
    case True
    then have "\<not> (\<exists>r \<in> set (findRoots g g). c_id c \<in> set (visitOrder g (c_id r)))"
      by (auto simp: findRoots_filter)
    with True show ?thesis by simp
  next
    case False
    with root_ancestor[OF acyc c] show ?thesis by simp
  qed
qed

theorem roots_found_witness:
  "map c_id (findRoots appGraph appGraph) = [''component-0''] \<and>
   (\<exists>r \<in> set (findRoots appGraph appGraph).
      ''component-3'' \<in> set (visitOrder appGraph (c_id r)))"
proof -
  have acyc: "\<forall>c \<in> set appGraph. c_id c \<notin> set (visitOrder appGraph (c_id c))"
    by (simp add: appGraph_def graph_eval)
  have roots: "findRoots appGraph appGraph =
      [plainComponent ''component-0'' ''App'' [''component-1'', ''component-2'']]"
    by (simp add: appGraph_def graph_eval findRoots_def)
  have inGraph: "plainComponent ''component-3'' ''List'' [] \<in> set appGraph"
    by (simp add: appGraph_def)
  have notRoot: "plainComponent ''component-3'' ''List'' [] \<notin> set (findRoots appGraph appGraph)"
    by (simp add: roots plainComponent_def)
  from roots_found [of appGraph] acyc
  have "\<forall>c \<in> set appGraph. (c \<in> set (findRoots appGraph appGraph)) \<noteq>
      (\<exists>r \<in> set (findRoots appGraph appGraph). c_id c \<in> set (visitOrder appGraph (c_id r)))"
    by blast
  with inGraph notRoot
  have "\<exists>r \<in> set (findRoots appGraph appGraph).
      c_id (plainComponent ''component-3'' ''List'' []) \<in> set (visitOrder appGraph (c_id r))"
    by blast
  then have "\<exists>r \<in> set (findRoots appGraph appGraph).
      ''component-3'' \<in> set (visitOrder appGraph (c_id r))"
    by (simp add: plainComponent_def)
  moreover have "map c_id (findRoots appGraph appGraph) = [''component-0'']"
    by (simp add: roots plainComponent_def)
  ultimately show ?thesis by blast
qed

text \<open>
  On the two-component cycle \<open>findRoots\<close> returns no root: \<open>A\<close> is neither a root nor visited
  from a root. A component that renders itself is visited from no other component, and is
  not returned as a root either.
\<close>

theorem roots_of_cycles:
  "(\<exists>c \<in> set cycleGraph. c \<notin> set (findRoots cycleGraph cycleGraph) \<and>
      \<not> (\<exists>r \<in> set (findRoots cycleGraph cycleGraph).
            c_id c \<in> set (visitOrder cycleGraph (c_id r)))) \<and>
   (\<exists>c \<in> set selfGraph. c \<notin> set (findRoots selfGraph selfGraph) \<and>
      \<not> (\<exists>p \<in> set selfGraph. c_id p \<noteq> c_id c \<and>
            c_id c \<in> set (visitOrder selfGraph (c_id p))))"
proof -
  have "findRoots cycleGraph cycleGraph = []"
    by (simp add: cycleGraph_def graph_eval findRoots_def)
  moreover have "findRoots selfGraph selfGraph = []"
    by (simp add: selfGraph_def graph_eval findRoots_def)
  ultimately show ?thesis by (auto simp: cycleGraph_def selfGraph_def)
qed

section \<open>Sorting the children\<close>

lemma insertBy_insort:
  fixes f :: "'a \<Rightarrow> int"
  shows "insertBy (\<lambda>a b. f b - f a) x ys = insort_key (\<lambda>a. - f a) x ys"
  by (induction ys) auto

lemma arraySort_sort_key:
  fixes f :: "'a \<Rightarrow> int"
  shows "arraySort (\<lambda>a b. f b - f a) xs = sort_key (\<lambda>a. - f a) xs"
  by (induction xs) (simp_all add: arraySort_def insertBy_insort)

lemma mset_insertBy: "mset (insertBy cmp x ys) = add_mset x (mset ys)"
  by (induction ys) auto

lemma mset_arraySort: "mset (arraySort cmp xs) = mset xs"
  by (induction xs) (simp_all add: arraySort_def mset_insertBy)

lemma getComponent_SomeD: "getComponent g i = Some c \<Longrightarrow> c \<in> set g \<and> c_id c = i"
  by (auto simp: getComponent_def dest: find_SomeD)

lemma getComponent_setChildren:
  "getComponent (setChildren g i cs) j =
     (if j = i then map_option (\<lambda>c. c\<lparr>children := cs\<rparr>) (getComponent g i) else getComponent g j)"
  by (induction g) (auto simp: getComponent_def)

lemma childrenOf_setChildren:
  "childrenOf (setChildren g i cs) j =
     (if j = i \<and> getComponent g i \<noteq> None then cs else childrenOf g j)"
  by (auto simp: childrenOf_def getComponent_setChildren split: option.splits)

lemma countDescendant_card: "countDescendant g i = int (card ((childRel g)\<^sup>+ `` {i}))"
  using distinct_card[OF visitOrder_distinct, of g i]
  by (simp add: countDescendant_def visitOrder_set)

lemma countDescendant_cong:
  assumes "\<And>j. set (childrenOf g' j) = set (childrenOf g j)"
  shows "countDescendant g' = countDescendant g"
proof -
  have "childRel g' = childRel g" using assms by (auto simp: childRel_def)
  then show ?thesis by (auto simp: countDescendant_card)
qed

lemma raiseLevel_ids: "map n_id (raiseLevel ns i lv) = map n_id ns"
  by (induction ns) auto

lemma heap_markComponent: "heap (markComponent node lv s) = heap s"
  by (simp add: markComponent_def Let_def split: option.splits)

lemma ids_markComponent:
  "n_id ` set (newNodes (markComponent node lv s)) = insert (c_id node) (n_id ` set (newNodes s))"
proof (cases "find (\<lambda>n. n_id n = c_id node) (newNodes s)")
  case None
  then show ?thesis by (auto simp: markComponent_def)
next
  case (Some tgt)
  then have "c_id node \<in> n_id ` set (newNodes s)" by (rule find_Some_image)
  moreover have "n_id ` set (raiseLevel (newNodes s) (c_id node) lv) = n_id ` set (newNodes s)"
    using raiseLevel_ids[of "newNodes s" "c_id node" lv] by (metis set_map)
  ultimately show ?thesis using Some by (auto simp: markComponent_def)
qed

lemma newNodes_sortChildren: "newNodes (sortChildren node s) = newNodes s"
  by (simp add: sortChildren_def)

lemma marksSorted_counts:
  assumes "marksSorted g s"
  shows "countDescendant (heap s) = countDescendant g"
proof (rule countDescendant_cong)
  fix j
  from assms show "set (childrenOf (heap s) j) = set (childrenOf g j)"
    by (simp add: marksSorted_def sortDescending_def)
qed

lemma sortDescending_idem: "sortDescending g (sortDescending g xs) = sortDescending g xs"
  by (simp add: sortDescending_def sort_key_id_if_sorted)

lemma marksSorted_enter:
  assumes inv: "marksSorted g s" and node: "getComponent (heap s) i = Some node"
  shows "marksSorted g (sortChildren node (markComponent node lv s))"
proof -
  from node have i: "c_id node = i" by (auto dest: getComponent_SomeD)
  have kids: "children node = childrenOf (heap s) i" using node by (simp add: childrenOf_def)
  have cnt: "countDescendant (heap s) = countDescendant g" by (rule marksSorted_counts[OF inv])
  have sorted: "arraySort (\<lambda>a b. countDescendant (heap s) b - countDescendant (heap s) a) (children node)
      = sortDescending g (childrenOf g i)"
  proof -
    have "arraySort (\<lambda>a b. countDescendant (heap s) b - countDescendant (heap s) a) (children node)
        = sortDescending g (childrenOf (heap s) i)"
      by (simp add: arraySort_sort_key sortDescending_def cnt kids)
    also have "\<dots> = sortDescending g (childrenOf g i)"
      using inv by (simp add: marksSorted_def sortDescending_idem)
    finally show ?thesis .
  qed
  show ?thesis
    unfolding marksSorted_def
  proof
    fix j
    show "childrenOf (heap (sortChildren node (markComponent node lv s))) j =
        (if j \<in> n_id ` set (newNodes (sortChildren node (markComponent node lv s)))
         then sortDescending g (childrenOf g j) else childrenOf g j)"
      using inv node sorted
      by (simp add: sortChildren_def heap_markComponent childrenOf_setChildren ids_markComponent i
            marksSorted_def)
  qed
qed

lemma marksSorted_preserved:
  "marksSorted g s \<Longrightarrow> convertComponentToMark depth i lv s = Some s' \<Longrightarrow> marksSorted g s'"
  "marksSorted g s \<Longrightarrow> forEachChild depth cs lv s = Some s' \<Longrightarrow> marksSorted g s'"
proof (induction depth i lv s and depth cs lv s arbitrary: s' and s'
       rule: convertComponentToMark_forEachChild.induct)
  case (1 i lv s)
  then show ?case by simp
next
  case (2 depth i lv s)
  from "2.prems"(2) obtain node where node: "getComponent (heap s) i = Some node"
    by (auto split: option.splits)
  let ?s = "sortChildren node (markComponent node lv s)"
  have "marksSorted g ?s" by (rule marksSorted_enter[OF "2.prems"(1) node])
  moreover from "2.prems"(2) node
  have "forEachChild depth (childrenOf (heap ?s) (c_id node)) (lv + 1) ?s = Some s'"
    by (simp add: Let_def)
  ultimately show ?case using "2.IH"[OF node refl] by blast
next
  case (3 depth lv s)
  then show ?case by simp
next
  case (4 depth child rest lv s)
  from "4.prems"(2) obtain s1 where s1: "convertComponentToMark depth child lv s = Some s1"
    and rest: "forEachChild depth rest lv s1 = Some s'"
    by (auto split: option.splits)
  from "4.IH"(1)[OF "4.prems"(1) s1] have "marksSorted g s1" .
  from "4.IH"(2)[OF s1 this rest] show ?case .
qed

section \<open>What the layout leaves unchanged\<close>

lemma sameButChildrenOrder_refl: "sameButChildrenOrder c c"
  by (simp add: sameButChildrenOrder_def)

lemma sameButChildrenOrder_trans:
  "sameButChildrenOrder a b \<Longrightarrow> sameButChildrenOrder b c \<Longrightarrow> sameButChildrenOrder a c"
  by (simp add: sameButChildrenOrder_def)

lemma frame_refl: "list_all2 sameButChildrenOrder g g"
  by (simp add: list_all2_refl sameButChildrenOrder_refl)

lemma frame_trans:
  "list_all2 sameButChildrenOrder g h \<Longrightarrow> list_all2 sameButChildrenOrder h k \<Longrightarrow>
   list_all2 sameButChildrenOrder g k"
  by (rule list_all2_trans[of sameButChildrenOrder sameButChildrenOrder sameButChildrenOrder])
     (auto intro: sameButChildrenOrder_trans)

lemma frame_setChildren:
  assumes "getComponent g i = Some node" and "mset cs = mset (children node)"
  shows "list_all2 sameButChildrenOrder g (setChildren g i cs)"
  using assms
proof (induction g)
  case Nil
  then show ?case by (simp add: getComponent_def)
next
  case (Cons c g)
  show ?case
  proof (cases "c_id c = i")
    case True
    with Cons.prems have "node = c" by (simp add: getComponent_def)
    with True Cons.prems have "sameButChildrenOrder c (c\<lparr>children := cs\<rparr>)"
      by (simp add: sameButChildrenOrder_def)
    with True show ?thesis by (simp add: frame_refl)
  next
    case False
    with Cons.prems have "getComponent g i = Some node" by (simp add: getComponent_def)
    with Cons.IH Cons.prems False show ?thesis
      by (simp add: sameButChildrenOrder_refl)
  qed
qed

lemma frame_enter:
  assumes "getComponent (heap s) i = Some node"
  shows "list_all2 sameButChildrenOrder (heap s) (heap (sortChildren node (markComponent node lv s)))"
proof -
  from assms have "c_id node = i" by (auto dest: getComponent_SomeD)
  with assms show ?thesis
    by (simp add: sortChildren_def heap_markComponent frame_setChildren mset_arraySort)
qed

lemma frame_preserved:
  "convertComponentToMark depth i lv s = Some s' \<Longrightarrow>
     list_all2 sameButChildrenOrder (heap s) (heap s')"
  "forEachChild depth cs lv s = Some s' \<Longrightarrow>
     list_all2 sameButChildrenOrder (heap s) (heap s')"
proof (induction depth i lv s and depth cs lv s arbitrary: s' and s'
       rule: convertComponentToMark_forEachChild.induct)
  case (1 i lv s)
  then show ?case by simp
next
  case (2 depth i lv s)
  from "2.prems" obtain node where node: "getComponent (heap s) i = Some node"
    by (auto split: option.splits)
  let ?s = "sortChildren node (markComponent node lv s)"
  from "2.prems" node
  have "forEachChild depth (childrenOf (heap ?s) (c_id node)) (lv + 1) ?s = Some s'"
    by (simp add: Let_def)
  from "2.IH"[OF node refl this] frame_enter[OF node, of lv] show ?case
    by (rule frame_trans[rotated])
next
  case (3 depth lv s)
  then show ?case by (simp add: frame_refl)
next
  case (4 depth child rest lv s)
  from "4.prems" obtain s1 where s1: "convertComponentToMark depth child lv s = Some s1"
    and rest: "forEachChild depth rest lv s1 = Some s'"
    by (auto split: option.splits)
  from "4.IH"(1)[OF s1] "4.IH"(2)[OF s1 rest] show ?case by (rule frame_trans)
qed

lemma frame_getComponent:
  assumes "list_all2 sameButChildrenOrder g h"
  shows "rel_option sameButChildrenOrder (getComponent g i) (getComponent h i)"
  using assms
  by (induction rule: list_all2_induct) (auto simp: getComponent_def sameButChildrenOrder_def)

lemma frame_childrenOf:
  assumes "list_all2 sameButChildrenOrder g h"
  shows "mset (childrenOf h i) = mset (childrenOf g i)"
  using frame_getComponent[OF assms, of i]
  by (auto simp: childrenOf_def sameButChildrenOrder_def elim!: option.rel_cases)

lemma frame_ids:
  assumes "list_all2 sameButChildrenOrder g h"
  shows "getComponent h i = None \<longleftrightarrow> getComponent g i = None"
  using frame_getComponent[OF assms, of i]
  by (auto elim!: option.rel_cases)

lemma deeper_stack:
  "convertComponentToMark depth i lv s = Some s' \<Longrightarrow> depth \<le> depth' \<Longrightarrow>
     convertComponentToMark depth' i lv s = Some s'"
  "forEachChild depth cs lv s = Some s' \<Longrightarrow> depth \<le> depth' \<Longrightarrow>
     forEachChild depth' cs lv s = Some s'"
proof (induction depth i lv s and depth cs lv s arbitrary: s' depth' and s' depth'
       rule: convertComponentToMark_forEachChild.induct)
  case (1 i lv s)
  then show ?case by simp
next
  case (2 depth i lv s)
  from "2.prems"(2) obtain d where d: "depth' = Suc d" "depth \<le> d"
    by (cases depth') auto
  from "2.prems"(1) obtain node where node: "getComponent (heap s) i = Some node"
    by (auto split: option.splits)
  let ?s = "sortChildren node (markComponent node lv s)"
  from "2.prems"(1) node
  have "forEachChild depth (childrenOf (heap ?s) (c_id node)) (lv + 1) ?s = Some s'"
    by (simp add: Let_def)
  from "2.IH"[OF node refl this d(2)] node d(1) show ?case by (simp add: Let_def)
next
  case (3 depth lv s)
  then show ?case by simp
next
  case (4 depth child rest lv s)
  from "4.prems"(1) obtain s1 where s1: "convertComponentToMark depth child lv s = Some s1"
    and rest: "forEachChild depth rest lv s1 = Some s'"
    by (auto split: option.splits)
  from "4.IH"(1)[OF s1 "4.prems"(2)] "4.IH"(2)[OF s1 rest "4.prems"(2)] show ?case by simp
qed

lemma appGraph_roots:
  "findRoots appGraph appGraph =
     [plainComponent ''component-0'' ''App'' [''component-1'', ''component-2'']]"
  by (simp add: appGraph_def graph_eval findRoots_def)

lemma appGraph_layout: "buildMarks 3 appGraph = Some appLayout"
  unfolding buildMarks_def appGraph_roots appLayout_def
  by (simp add: appGraph_def graph_eval markComponent_def sortChildren_def countDescendant_def
        arraySort_def componentMark_def eval_nat_numeral Let_def)

section \<open>The layout returns on graphs without cycles\<close>

lemma childrenOf_memD:
  assumes "y \<in> set (childrenOf g x)"
  shows "\<exists>c. getComponent g x = Some c \<and> c \<in> set g \<and> c_id c = x \<and> y \<in> set (children c)"
proof (cases "getComponent g x")
  case None
  with assms show ?thesis by (simp add: childrenOf_def)
next
  case (Some c)
  with assms getComponent_SomeD[OF Some] show ?thesis by (simp add: childrenOf_def)
qed

lemma childRel_finite: "finite (childRel g)"
proof (rule finite_subset)
  show "childRel g \<subseteq> idsOf g \<times> nodesOf g"
    by (auto simp: childRel_def nodesOf_def idsOf_def dest!: childrenOf_memD)
  show "finite (idsOf g \<times> nodesOf g)"
    by (simp add: idsOf_def nodesOf_def)
qed

lemma getComponent_None_iff: "getComponent g i = None \<longleftrightarrow> i \<notin> idsOf g"
  by (simp add: getComponent_def idsOf_def find_None_image)

lemma childRel_acyclic:
  assumes "\<forall>c \<in> set g. c_id c \<notin> set (visitOrder g (c_id c))"
  shows "acyclic (childRel g)"
  unfolding acyclic_def
proof (intro allI notI)
  fix x assume loop: "(x, x) \<in> (childRel g)\<^sup>+"
  then obtain z where "(x, z) \<in> childRel g" by (auto dest: tranclD)
  then obtain c where "c \<in> set g" "c_id c = x"
    by (auto simp: childRel_def dest!: childrenOf_memD)
  with assms loop show False by (auto simp: visitOrder_set)
qed

lemma forEachChild_returns:
  assumes "\<forall>y \<in> set cs. callReturns g d y"
    and "list_all2 sameButChildrenOrder g (heap s)"
  shows "forEachChild d cs lv s \<noteq> None"
  using assms
proof (induction cs arbitrary: s)
  case Nil
  show ?case by simp
next
  case (Cons c cs)
  from Cons.prems obtain s1 where s1: "convertComponentToMark d c lv s = Some s1"
    by (fastforce simp: callReturns_def)
  from Cons.prems(2) frame_preserved(1)[OF s1]
  have "list_all2 sameButChildrenOrder g (heap s1)" by (rule frame_trans)
  with Cons.IH Cons.prems(1) have "forEachChild d cs lv s1 \<noteq> None" by simp
  with s1 show ?case by simp
qed

lemma callReturns_deeper:
  assumes "callReturns g d y" and "d \<le> d'"
  shows "callReturns g d' y"
  unfolding callReturns_def
proof (intro allI impI)
  fix lv and s :: Layout assume "list_all2 sameButChildrenOrder g (heap s)"
  with assms(1) obtain s' where "convertComponentToMark d y lv s = Some s'"
    by (fastforce simp: callReturns_def)
  from deeper_stack(1)[OF this assms(2)]
  show "convertComponentToMark d' y lv s \<noteq> None" by simp
qed

lemma deep_enough:
  assumes "\<forall>y \<in> set ys. \<exists>d. callReturns g d y"
  shows "\<exists>d. \<forall>y \<in> set ys. callReturns g d y"
proof -
  from assms obtain f where f: "\<forall>y \<in> set ys. callReturns g (f y) y"
    by metis
  have "\<forall>y \<in> set ys. callReturns g (sum_list (map f ys)) y"
  proof
    fix y assume y: "y \<in> set ys"
    then have "f y \<le> sum_list (map f ys)" by (simp add: member_le_sum_list)
    with f y show "callReturns g (sum_list (map f ys)) y"
      by (blast intro: callReturns_deeper)
  qed
  then show ?thesis ..
qed

lemma call_returns:
  assumes closed: "\<forall>c \<in> set g. set (children c) \<subseteq> idsOf g"
    and acyc: "\<forall>c \<in> set g. c_id c \<notin> set (visitOrder g (c_id c))"
  shows "x \<in> idsOf g \<longrightarrow> (\<exists>d. callReturns g d x)"
proof -
  have "wf ((childRel g)\<inverse>)"
    using childRel_finite childRel_acyclic[OF acyc] by (rule finite_acyclic_wf_converse)
  then show ?thesis
  proof (induction x rule: wf_induct_rule)
    case (less x)
    show ?case
    proof
      assume x: "x \<in> idsOf g"
      have "\<forall>y \<in> set (childrenOf g x). \<exists>d. callReturns g d y"
      proof
        fix y assume y: "y \<in> set (childrenOf g x)"
        then have "(y, x) \<in> (childRel g)\<inverse>" by (simp add: childRel_def)
        moreover from childrenOf_memD[OF y] closed have "y \<in> idsOf g" by auto
        ultimately show "\<exists>d. callReturns g d y"
          using less by blast
      qed
      from deep_enough[OF this] obtain d where
        d: "\<forall>y \<in> set (childrenOf g x). callReturns g d y" ..
      have "callReturns g (Suc d) x"
        unfolding callReturns_def
      proof (intro allI impI)
        fix lv and s :: Layout assume F: "list_all2 sameButChildrenOrder g (heap s)"
        from x have "getComponent g x \<noteq> None" by (simp add: getComponent_None_iff)
        with frame_ids[OF F, of x] obtain node where node: "getComponent (heap s) x = Some node"
          by auto
        then have nid: "c_id node = x" by (auto dest: getComponent_SomeD)
        let ?s = "sortChildren node (markComponent node lv s)"
        from F frame_enter[OF node, of lv] have F': "list_all2 sameButChildrenOrder g (heap ?s)"
          by (rule frame_trans)
        from frame_childrenOf[OF F', of x]
        have "set (childrenOf (heap ?s) x) = set (childrenOf g x)" by (rule mset_eq_setD)
        with d have "\<forall>y \<in> set (childrenOf (heap ?s) x). callReturns g d y" by simp
        from forEachChild_returns[OF this F'] node nid
        show "convertComponentToMark (Suc d) x lv s \<noteq> None" by (simp add: Let_def)
      qed
      then show "\<exists>d. callReturns g d x" ..
    qed
  qed
qed

lemma buildMarks_returns:
  assumes closed: "\<forall>c \<in> set g. set (children c) \<subseteq> idsOf g"
    and acyc: "\<forall>c \<in> set g. c_id c \<notin> set (visitOrder g (c_id c))"
  shows "\<exists>depth s'. buildMarks depth g = Some s'"
proof -
  have "\<forall>y \<in> set (map c_id (findRoots g g)). \<exists>d. callReturns g d y"
    using call_returns[OF closed acyc] by (auto simp: findRoots_filter idsOf_def)
  from deep_enough[OF this] obtain d where
    d: "\<forall>y \<in> set (map c_id (findRoots g g)). callReturns g d y" ..
  have "list_all2 sameButChildrenOrder g (heap \<lparr>heap = g, newNodes = [], index = 0, maxLevel = 0\<rparr>)"
    by (simp add: frame_refl)
  from forEachChild_returns[OF d this]
  have "forEachChild d (map c_id (findRoots g g)) 0
          \<lparr>heap = g, newNodes = [], index = 0, maxLevel = 0\<rparr> \<noteq> None" .
  then show ?thesis by (auto simp: buildMarks_def)
qed

lemma frame_childRel:
  assumes "list_all2 sameButChildrenOrder g h"
  shows "childRel h = childRel g"
  using mset_eq_setD[OF frame_childrenOf[OF assms]] by (simp add: childRel_def)

lemma marks_cover:
  "convertComponentToMark depth i lv s = Some s' \<Longrightarrow> list_all2 sameButChildrenOrder g (heap s) \<Longrightarrow>
     n_id ` set (newNodes s) \<union> {i} \<union> (childRel g)\<^sup>+ `` {i} \<subseteq> n_id ` set (newNodes s')"
  "forEachChild depth cs lv s = Some s' \<Longrightarrow> list_all2 sameButChildrenOrder g (heap s) \<Longrightarrow>
     n_id ` set (newNodes s) \<union> set cs \<union> (childRel g)\<^sup>+ `` set cs \<subseteq> n_id ` set (newNodes s')"
proof (induction depth i lv s and depth cs lv s arbitrary: s' and s'
       rule: convertComponentToMark_forEachChild.induct)
  case (1 i lv s)
  then show ?case by simp
next
  case (2 depth i lv s)
  from "2.prems"(1) obtain node where node: "getComponent (heap s) i = Some node"
    by (auto split: option.splits)
  then have nid: "c_id node = i" by (auto dest: getComponent_SomeD)
  let ?s = "sortChildren node (markComponent node lv s)"
  from "2.prems"(1) node
  have run: "forEachChild depth (childrenOf (heap ?s) (c_id node)) (lv + 1) ?s = Some s'"
    by (simp add: Let_def)
  from "2.prems"(2) frame_enter[OF node, of lv]
  have F: "list_all2 sameButChildrenOrder g (heap ?s)" by (rule frame_trans)
  have kids: "set (childrenOf (heap ?s) (c_id node)) = childRel g `` {i}"
    using frame_childRel[OF F] by (auto simp: childRel_def nid)
  have marks: "n_id ` set (newNodes ?s) = insert i (n_id ` set (newNodes s))"
    by (simp add: newNodes_sortChildren ids_markComponent nid)
  have "(childRel g)\<^sup>+ `` {i} \<subseteq> childRel g `` {i} \<union> (childRel g)\<^sup>+ `` (childRel g `` {i})"
  proof
    fix x assume "x \<in> (childRel g)\<^sup>+ `` {i}"
    then obtain z where z: "(i, z) \<in> childRel g" "(z, x) \<in> (childRel g)\<^sup>*"
      by (auto dest: tranclD)
    from rtranclD[OF z(2)] z(1)
    show "x \<in> childRel g `` {i} \<union> (childRel g)\<^sup>+ `` (childRel g `` {i})" by auto
  qed
  moreover have "insert i A \<union> K \<union> T \<subseteq> M \<Longrightarrow> D \<subseteq> K \<union> T \<Longrightarrow> A \<union> {i} \<union> D \<subseteq> M"
    for A K T M D :: "string set"
    by blast
  ultimately show ?case using "2.IH"[OF node refl run F] unfolding kids marks by blast
next
  case (3 depth lv s)
  then show ?case by simp
next
  case (4 depth child rest lv s)
  from "4.prems"(1) obtain s1 where s1: "convertComponentToMark depth child lv s = Some s1"
    and rest: "forEachChild depth rest lv s1 = Some s'"
    by (auto split: option.splits)
  from "4.prems"(2) frame_preserved(1)[OF s1]
  have F1: "list_all2 sameButChildrenOrder g (heap s1)" by (rule frame_trans)
  have "(childRel g)\<^sup>+ `` set (child # rest) =
      (childRel g)\<^sup>+ `` {child} \<union> (childRel g)\<^sup>+ `` set rest"
    by auto
  moreover have "A \<union> {c} \<union> D \<subseteq> M1 \<Longrightarrow> M1 \<union> R \<union> F \<subseteq> M2 \<Longrightarrow>
      A \<union> insert c R \<union> (D \<union> F) \<subseteq> M2" for A D M1 R F M2 :: "string set" and c
    by blast
  ultimately show ?case
    using "4.IH"(1)[OF s1 "4.prems"(2)] "4.IH"(2)[OF s1 rest F1] by (simp only: list.set)
qed

lemma buildMarks_cover:
  assumes acyc: "\<forall>c \<in> set g. c_id c \<notin> set (visitOrder g (c_id c))"
    and run: "buildMarks depth g = Some s'"
  shows "idsOf g \<subseteq> n_id ` set (newNodes s')"
proof
  fix x assume "x \<in> idsOf g"
  then obtain c where c: "c \<in> set g" "c_id c = x" by (auto simp: idsOf_def)
  from run have "forEachChild depth (map c_id (findRoots g g)) 0
      \<lparr>heap = g, newNodes = [], index = 0, maxLevel = 0\<rparr> = Some s'"
    by (simp add: buildMarks_def)
  from marks_cover(2)[OF this, of g]
  have cover: "c_id ` set (findRoots g g) \<union> (childRel g)\<^sup>+ `` (c_id ` set (findRoots g g))
      \<subseteq> n_id ` set (newNodes s')"
    by (simp add: frame_refl)
  show "x \<in> n_id ` set (newNodes s')"
  proof (cases "c \<in> set (findRoots g g)")
    case True
    with cover c show ?thesis by auto
  next
    case False
    from root_ancestor[OF acyc c(1) False] obtain r where
      "r \<in> set (findRoots g g)" "c_id c \<in> set (visitOrder g (c_id r))" by blast
    then have "x \<in> (childRel g)\<^sup>+ `` (c_id ` set (findRoots g g))"
      using c by (auto simp: visitOrder_set)
    with cover show ?thesis by blast
  qed
qed

section \<open>Frame and order of the children after the layout\<close>

lemma marksSorted_start:
  "marksSorted g \<lparr>heap = g, newNodes = [], index = 0, maxLevel = 0\<rparr>"
  by (simp add: marksSorted_def)

lemma sortDescending_descending:
  "sorted_wrt (\<lambda>a b. countDescendant g a \<ge> countDescendant g b) (sortDescending g xs)"
proof -
  have "sorted (map (\<lambda>j. - countDescendant g j) (sortDescending g xs))"
    by (simp add: sortDescending_def)
  then show ?thesis by (simp add: sorted_map)
qed

lemma sortDescending_stable:
  "filter (\<lambda>j. countDescendant g j = k) (sortDescending g xs) =
   filter (\<lambda>j. countDescendant g j = k) xs"
proof -
  have "filter (\<lambda>j. - countDescendant g j = - k) (sort_key (\<lambda>j. - countDescendant g j) xs) =
        filter (\<lambda>j. - countDescendant g j = - k) xs"
    by (rule sort_key_stable)
  then show ?thesis by (simp add: sortDescending_def)
qed

text \<open>
  C3, as the code has it. A call of \<open>convertComponentToMark\<close> that returns, and so the whole
  construction of the marks, leaves every component object with the id, name, props,
  states, effects and \<open>falseChildren\<close> it had, and with the same children; only the order
  of the elements of \<open>children\<close> may have changed. (\<open>findRoots\<close> and the conversions to edges
  return values and write no component.)
\<close>

theorem layout_frame:
  "(convertComponentToMark depth i lv s = Some s' \<longrightarrow>
      list_all2 sameButChildrenOrder (heap s) (heap s')) \<and>
   (buildMarks depth g = Some s'' \<longrightarrow> list_all2 sameButChildrenOrder g (heap s''))"
proof (intro conjI impI)
  assume "convertComponentToMark depth i lv s = Some s'"
  then show "list_all2 sameButChildrenOrder (heap s) (heap s')" by (rule frame_preserved(1))
next
  assume "buildMarks depth g = Some s''"
  then have "forEachChild depth (map c_id (findRoots g g)) 0
      \<lparr>heap = g, newNodes = [], index = 0, maxLevel = 0\<rparr> = Some s''"
    by (simp add: buildMarks_def)
  from frame_preserved(2)[OF this] show "list_all2 sameButChildrenOrder g (heap s'')" by simp
qed

text \<open>On \<open>appGraph\<close> the construction returns within stack depth 3.\<close>

theorem layout_frame_witness:
  "buildMarks 3 appGraph = Some appLayout \<and>
   list_all2 sameButChildrenOrder appGraph (heap appLayout) \<and>
   map c_id (heap appLayout) = map c_id appGraph"
proof -
  from layout_frame [where depth = 3 and g = appGraph and s'' = appLayout] appGraph_layout
  have "list_all2 sameButChildrenOrder appGraph (heap appLayout)" by blast
  moreover have "map c_id (heap appLayout) = map c_id appGraph"
    by (simp add: appLayout_def appGraph_def plainComponent_def)
  ultimately show ?thesis using appGraph_layout by blast
qed

text \<open>
  The order does change: the children of \<open>App\<close> are \<open>Header\<close>, \<open>Main\<close> before the layout and
  \<open>Main\<close>, \<open>Header\<close> after it.
\<close>

theorem layout_reorders_children:
  "buildMarks 3 appGraph = Some appLayout \<and>
   childrenOf appGraph ''component-0'' = [''component-1'', ''component-2''] \<and>
   childrenOf (heap appLayout) ''component-0'' = [''component-2'', ''component-1'']"
  by (simp add: appGraph_layout) (simp add: appLayout_def appGraph_def graph_eval)

text \<open>
  C5. Whenever the construction of the marks returns, the children of every component that
  has a mark (every component \<open>convertComponentToMark\<close> was called on) are the original
  children sorted by \<open>countDescendant\<close>: the counts are descending along the array, and the
  children with one and the same count are in their original order. On a graph whose
  children are all components of the list and in which no component is its own
  descendant, the construction does return at some stack depth, and then every component
  has a mark.
\<close>

theorem children_sorted:
  "(\<forall>depth s'. buildMarks depth g = Some s' \<longrightarrow>
      (\<forall>n \<in> set (newNodes s').
         childrenOf (heap s') (n_id n) = sortDescending g (childrenOf g (n_id n)) \<and>
         sorted_wrt (\<lambda>a b. countDescendant (heap s') a \<ge> countDescendant (heap s') b)
           (childrenOf (heap s') (n_id n)) \<and>
         (\<forall>k. filter (\<lambda>j. countDescendant (heap s') j = k) (childrenOf (heap s') (n_id n)) =
              filter (\<lambda>j. countDescendant (heap s') j = k) (childrenOf g (n_id n))))) \<and>
   ((\<forall>c \<in> set g. set (children c) \<subseteq> idsOf g) \<and>
    (\<forall>c \<in> set g. c_id c \<notin> set (visitOrder g (c_id c))) \<longrightarrow>
      (\<exists>depth s'. buildMarks depth g = Some s') \<and>
      (\<forall>depth s'. buildMarks depth g = Some s' \<longrightarrow> idsOf g \<subseteq> n_id ` set (newNodes s')))"
proof (intro conjI allI impI ballI)
  fix depth s' n k
  assume run: "buildMarks depth g = Some s'" and n: "n \<in> set (newNodes s')"
  from run have "forEachChild depth (map c_id (findRoots g g)) 0
      \<lparr>heap = g, newNodes = [], index = 0, maxLevel = 0\<rparr> = Some s'"
    by (simp add: buildMarks_def)
  from marksSorted_preserved(2)[OF marksSorted_start this] have inv: "marksSorted g s'" .
  then have cnt: "countDescendant (heap s') = countDescendant g" by (rule marksSorted_counts)
  from inv n show eq: "childrenOf (heap s') (n_id n) = sortDescending g (childrenOf g (n_id n))"
    by (simp add: marksSorted_def)
  show "sorted_wrt (\<lambda>a b. countDescendant (heap s') a \<ge> countDescendant (heap s') b)
           (childrenOf (heap s') (n_id n))"
    by (simp add: eq cnt sortDescending_descending)
  show "filter (\<lambda>j. countDescendant (heap s') j = k) (childrenOf (heap s') (n_id n)) =
              filter (\<lambda>j. countDescendant (heap s') j = k) (childrenOf g (n_id n))"
    by (simp add: eq cnt sortDescending_stable)
next
  assume "(\<forall>c \<in> set g. set (children c) \<subseteq> idsOf g) \<and>
    (\<forall>c \<in> set g. c_id c \<notin> set (visitOrder g (c_id c)))"
  then show "\<exists>depth s'. buildMarks depth g = Some s'"
    by (blast intro: buildMarks_returns)
next
  fix depth s'
  assume "(\<forall>c \<in> set g. set (children c) \<subseteq> idsOf g) \<and>
    (\<forall>c \<in> set g. c_id c \<notin> set (visitOrder g (c_id c)))"
    and run: "buildMarks depth g = Some s'"
  then have "\<forall>c \<in> set g. c_id c \<notin> set (visitOrder g (c_id c))" by simp
  from buildMarks_cover[OF this run] show "idsOf g \<subseteq> n_id ` set (newNodes s')" .
qed

text \<open>
  On \<open>appGraph\<close>: the construction returns, and the children of \<open>App\<close> end as \<open>Main\<close> (two
  descendants), \<open>Header\<close> (none).
\<close>

theorem children_sorted_witness:
  "(\<exists>depth s'. buildMarks depth appGraph = Some s') \<and>
   buildMarks 3 appGraph = Some appLayout \<and>
   childrenOf (heap appLayout) ''component-0'' =
     sortDescending appGraph (childrenOf appGraph ''component-0'') \<and>
   childrenOf (heap appLayout) ''component-0'' = [''component-2'', ''component-1''] \<and>
   map (countDescendant (heap appLayout)) (childrenOf (heap appLayout) ''component-0'') = [2, 0]"
proof -
  note inst = children_sorted [of appGraph]
  have closed: "\<forall>c \<in> set appGraph. set (children c) \<subseteq> idsOf appGraph"
    by (simp add: appGraph_def plainComponent_def idsOf_def)
  have acyc: "\<forall>c \<in> set appGraph. c_id c \<notin> set (visitOrder appGraph (c_id c))"
    by (simp add: appGraph_def graph_eval)
  from inst closed acyc have returns: "\<exists>depth s'. buildMarks depth appGraph = Some s'"
    by blast
  have mark: "componentMark ''component-0'' ''App'' 0 0 \<in> set (newNodes appLayout)"
    by (simp add: appLayout_def)
  from inst appGraph_layout mark
  have "childrenOf (heap appLayout) (n_id (componentMark ''component-0'' ''App'' 0 0)) =
      sortDescending appGraph (childrenOf appGraph (n_id (componentMark ''component-0'' ''App'' 0 0)))"
    by blast
  then have sorted: "childrenOf (heap appLayout) ''component-0'' =
      sortDescending appGraph (childrenOf appGraph ''component-0'')"
    by (simp add: componentMark_def)
  have kids: "childrenOf (heap appLayout) ''component-0'' = [''component-2'', ''component-1'']"
    by (simp add: appLayout_def graph_eval)
  have "map (countDescendant (heap appLayout)) [''component-2'', ''component-1''] = [2, 0]"
    by (simp add: appLayout_def graph_eval countDescendant_def)
  with sorted kids returns appGraph_layout show ?thesis by simp
qed

end
